theory Spec2Isabelle
  imports Complex_Main
begin

section \<open>Strings and paths\<close>

text \<open>
  The build service of \<^verbatim>\<open>backend/app/build.py\<close> works on \<^verbatim>\<open>pathlib\<close> paths and
  Python strings. File names are taken to be ASCII, so that \<^verbatim>\<open>str.lower\<close> only moves
  the letters A to Z.
\<close>

definition lower_char :: "char \<Rightarrow> char" where
  "lower_char c =
     (let n = (of_char c :: nat) in if 65 \<le> n \<and> n \<le> 90 then char_of (n + 32) else c)"

definition str_lower :: "string \<Rightarrow> string" where
  "str_lower s = map lower_char s"

text \<open>\<^verbatim>\<open>str.rfind(ch)\<close>: the index of the last occurrence, or -1.\<close>

definition rfind :: "char \<Rightarrow> string \<Rightarrow> int" where
  "rfind c s =
     (if c \<in> set s
      then int (length s) - 1 - int (length (takeWhile (\<lambda>x. x \<noteq> c) (rev s)))
      else - 1)"

text \<open>
  \<^verbatim>\<open>PurePath.suffix\<close> and \<^verbatim>\<open>PurePath.stem\<close> of a final path component:
  \<^verbatim>\<open>i = name.rfind('.'); if 0 < i < len(name) - 1: return name[i:] else: return ''\<close>.
\<close>

definition path_suffix :: "string \<Rightarrow> string" where
  "path_suffix name =
     (let i = rfind (CHR ''.'') name
      in if 0 < i \<and> i < int (length name) - 1 then drop (nat i) name else [])"

definition path_stem :: "string \<Rightarrow> string" where
  "path_stem name =
     (let i = rfind (CHR ''.'') name
      in if 0 < i \<and> i < int (length name) - 1 then take (nat i) name else name)"

text \<open>\<^verbatim>\<open>path.with_suffix(s)\<close> on a final component: the stem followed by \<open>s\<close>.\<close>

definition with_suffix :: "string \<Rightarrow> string \<Rightarrow> string" where
  "with_suffix name s = path_stem name @ s"

text \<open>
  A \<^verbatim>\<open>Path\<close> is the list of its components; \<^verbatim>\<open>p / q\<close> appends, \<^verbatim>\<open>p.name\<close> is
  the last component and \<^verbatim>\<open>p.parent\<close> drops it.
\<close>

type_synonym path = "string list"

definition path_name :: "path \<Rightarrow> string" where
  "path_name p = (if p = [] then [] else last p)"

definition parent :: "path \<Rightarrow> path" where
  "parent p = butlast p"

text \<open>\<^verbatim>\<open>sep.join(parts)\<close>.\<close>

fun join :: "string \<Rightarrow> string list \<Rightarrow> string" where
  "join sep [] = []"
| "join sep [x] = x"
| "join sep (x # y # ys) = x @ sep @ join sep (y # ys)"

text \<open>\<^verbatim>\<open>s.replace(a, b)\<close> for single characters.\<close>

definition replace_char :: "char \<Rightarrow> char \<Rightarrow> string \<Rightarrow> string" where
  "replace_char a b s = map (\<lambda>c. if c = a then b else c) s"

text \<open>The text of a natural number, as \<^verbatim>\<open>str(int)\<close> prints it.\<close>

fun dec :: "nat \<Rightarrow> string" where
  "dec n = (if n < 10 then [char_of (48 + n)] else dec (n div 10) @ [char_of (48 + n mod 10)])"

declare dec.simps [simp del]

definition str_path :: "path \<Rightarrow> string" where
  "str_path p = join ''/'' p"

definition dq :: char where
  "dq = CHR 0x22"

definition nl :: char where
  "nl = CHR 0x0A"

section \<open>Errors\<close>

text \<open>
  \<^verbatim>\<open>BuildError\<close> is the only exception the service raises itself. \<^verbatim>\<open>OSError\<close> stands
  for a failure of the archive step; its text is \<^verbatim>\<open>[Errno n] strerror\<close>, as Python
  prints an \<^verbatim>\<open>OSError(errno, strerror)\<close>.
\<close>

datatype exc = BuildError string | OSError nat string

fun str_exc :: "exc \<Rightarrow> string" where
  "str_exc (BuildError m) = m"
| "str_exc (OSError n s) = ''[Errno '' @ dec n @ ''] '' @ s"

section \<open>Audio validation\<close>

text \<open>
  \<^verbatim>\<open>BuildService._validate_audio\<close>; \<open>Inr ()\<close> is the normal return.
\<close>

definition validate_audio :: "string \<Rightarrow> exc + unit" where
  "validate_audio file_name =
     (if str_lower (path_suffix file_name) \<notin> {''.ogg'', ''.wav''}
      then Inl (BuildError (''Unsupported audio format: '' @ path_suffix file_name))
      else Inr ())"

section \<open>Descriptor\<close>

text \<open>
  The project manifest \<^verbatim>\<open>project.json\<close>, read as the dictionary the descriptor is
  rendered from: the keys \<^verbatim>\<open>name\<close>, \<^verbatim>\<open>version\<close>, \<^verbatim>\<open>tags\<close> and
  \<^verbatim>\<open>supported_version\<close>, each absent (\<open>None\<close>) or present with a string
  (a list of strings for \<^verbatim>\<open>tags\<close>).
\<close>

record metadata =
  md_name :: "string option"
  md_version :: "string option"
  md_tags :: "string list option"
  md_supported_version :: "string option"

definition empty_metadata :: metadata where
  "empty_metadata =
     \<lparr>md_name = None, md_version = None, md_tags = None, md_supported_version = None\<rparr>"

text \<open>\<^verbatim>\<open>d.get(key, default)\<close> on an optional entry.\<close>

definition get_default :: "'a option \<Rightarrow> 'a \<Rightarrow> 'a" where
  "get_default v d = (case v of None \<Rightarrow> d | Some x \<Rightarrow> x)"

definition descriptor_lines :: "string \<Rightarrow> metadata \<Rightarrow> string list" where
  "descriptor_lines project_id md =
     (let name = get_default (md_name md) (''OpenCK3 '' @ project_id);
          version = get_default (md_version md) ''1.0'';
          tags = get_default (md_tags md) [];
          supported_version = get_default (md_supported_version md) ''1.11.*'';
          lines = [''version='' @ [dq] @ version @ [dq],
                   ''name='' @ [dq] @ name @ [dq],
                   ''supported_version='' @ [dq] @ supported_version @ [dq]]
      in if tags \<noteq> [] then lines @ [''tags={ '' @ join '','' tags @ '' }''] else lines)"

text \<open>\<^verbatim>\<open>BuildService._render_descriptor\<close>.\<close>

definition render_descriptor :: "string \<Rightarrow> metadata \<Rightarrow> string" where
  "render_descriptor project_id md = join [nl] (descriptor_lines project_id md) @ [nl]"

section \<open>The build environment\<close>

text \<open>
  What a build reads from outside: the files of the project directory (relative path and
  content, in the order \<^verbatim>\<open>storage.iter_project_files\<close> yields them), the regular files of
  the texture and audio asset directories (\<open>None\<close> when the directory does not exist),
  the converter the service detected, the outcome of running the converter (\<open>Inl\<close> the
  captured stderr of a non-zero exit, \<open>Inr\<close> the file it wrote), the JSON reader and
  writer, the temporary directory, the clock reading used for the archive name and the
  outcome of writing the archive. Copies and writes into the temporary working directory
  succeed; JSON files are well formed. A progress ratio is an exact rational, where the
  source computes with floats.
\<close>

type_synonym event = "string \<times> rat \<times> string"
type_synonym tree = "path \<rightharpoonup> string"
type_synonym listing = "(string \<times> string) list"
type_synonym payload = "(string \<times> string) list"

record env =
  project_files :: "(path \<times> string) list"
  dds_files :: "listing option"
  audio_files :: "listing option"
  converter :: "string option"
  run_converter :: "string list \<Rightarrow> string + string"
  parse_manifest :: "string \<Rightarrow> metadata"
  parse_sidecar :: "string \<Rightarrow> payload"
  dump_sidecar :: "payload \<Rightarrow> string"
  tmp_dir :: path
  timestamp :: nat
  archive_error :: "(nat \<times> string) option"

definition BASE_STORAGE :: path where
  "BASE_STORAGE = [''storage'']"

definition ASSET_ROOT :: path where
  "ASSET_ROOT = BASE_STORAGE @ [''assets'']"

definition DDS_ROOT :: path where
  "DDS_ROOT = ASSET_ROOT @ [''dds'']"

definition AUDIO_ROOT :: path where
  "AUDIO_ROOT = ASSET_ROOT @ [''audio'']"

definition METADATA_EXTENSION :: string where
  "METADATA_EXTENSION = ''.json''"

text \<open>
  \<^verbatim>\<open>storage.load_asset_metadata\<close>: the sidecar of an asset lies beside it, so it is looked
  up in the listing of the asset's own directory; no sidecar gives the empty dictionary.
\<close>

definition load_asset_metadata :: "env \<Rightarrow> listing \<Rightarrow> string \<Rightarrow> payload" where
  "load_asset_metadata E files asset_name =
     (let metadata_name = with_suffix asset_name (path_suffix asset_name @ METADATA_EXTENSION)
      in case map_of files metadata_name of
           Some text \<Rightarrow> parse_sidecar E text
         | None \<Rightarrow> [])"

text \<open>\<^verbatim>\<open>storage.save_metadata\<close>.\<close>

definition save_metadata :: "env \<Rightarrow> path \<Rightarrow> payload \<Rightarrow> tree \<Rightarrow> tree" where
  "save_metadata E metadata_path p t = t(metadata_path \<mapsto> dump_sidecar E p)"

section \<open>Pipeline stages\<close>

text \<open>
  A stage works on the tree of the working directory and calls the progress callback;
  it returns the tree, the calls it made (label, ratio, message) in order, and the
  exception that ended it, if any. The flag \<open>callback\<close> says whether a callback was passed.

  The tree holds the regular files only, each path with its content. The directories that
  the stages create with \<^verbatim>\<open>mkdir(parents=True, exist_ok=True)\<close> are not part of it
  (\<^verbatim>\<open>gfx\<close> and \<^verbatim>\<open>sound\<close>, which the texture and audio stages create as soon as their
  asset directory exists, even when it holds no file, and the parents of copied files),
  and neither is the \<^verbatim>\<open>FileExistsError\<close> that \<^verbatim>\<open>mkdir\<close> raises when a regular file
  already has the name of the directory. So equal trees mean equal files, not equal
  directories.

  The three file-driven stages share one loop,
  \<^verbatim>\<open>for index, file_path in enumerate(files, start=1): body; if callback: callback(label, index / total, msg)\<close>,
  which \<open>files_loop\<close> renders; an exception of the body ends the loop.
\<close>

fun files_loop ::
  "('f \<Rightarrow> tree \<Rightarrow> exc + tree) \<Rightarrow> string \<Rightarrow> ('f \<Rightarrow> string) \<Rightarrow> bool \<Rightarrow> nat \<Rightarrow> nat \<Rightarrow>
   'f list \<Rightarrow> tree \<Rightarrow> tree \<times> event list \<times> exc option" where
  "files_loop body label msg callback tot index [] t = (t, [], None)"
| "files_loop body label msg callback tot index (f # files) t =
     (case body f t of
        Inl e \<Rightarrow> (t, [], Some e)
      | Inr t' \<Rightarrow>
          (case files_loop body label msg callback tot (Suc index) files t' of
             (t'', evs, r) \<Rightarrow>
               ((t'',
                 (if callback then [(label, of_nat index / of_nat tot, msg f)] else []) @ evs,
                 r))))"

text \<open>\<^verbatim>\<open>total = len(files) or 1\<close>.\<close>

definition total_of :: "'f list \<Rightarrow> nat" where
  "total_of files = (if length files = 0 then 1 else length files)"

text \<open>\<^verbatim>\<open>BuildService._collect_project_files\<close>.\<close>

definition collect_project_files ::
  "env \<Rightarrow> string \<Rightarrow> path \<Rightarrow> bool \<Rightarrow> tree \<Rightarrow> tree \<times> event list \<times> exc option" where
  "collect_project_files E pid destination callback t =
     (let files = project_files E;
          tot = total_of files
      in files_loop (\<lambda>(rel, data) t. Inr (t(destination @ rel \<mapsto> data)))
           ''collect'' (\<lambda>(rel, data). ''Copied '' @ str_path rel) callback tot 1 files t)"

text \<open>\<^verbatim>\<open>BuildService._build_converter_command\<close>.\<close>

definition build_converter_command :: "string option \<Rightarrow> path \<Rightarrow> path \<Rightarrow> exc + string list" where
  "build_converter_command conv source destination =
     (if conv = Some ''texconv''
      then Inr [''texconv'', ''-f'', ''BC7_UNORM'', ''-y'', ''-o'',
                str_path (parent destination), str_path source]
      else if conv \<in> {Some ''magick'', Some ''convert''}
      then Inr [the conv, str_path source, str_path destination]
      else Inl (BuildError ''Unsupported converter configured''))"

text \<open>
  \<^verbatim>\<open>BuildService._convert_to_dds\<close>; \<open>data\<close> is the content of the source file.
  \<^verbatim>\<open>not self._converter\<close> holds for \<^verbatim>\<open>None\<close> and for the empty string.
\<close>

definition convert_to_dds :: "env \<Rightarrow> path \<Rightarrow> string \<Rightarrow> path \<Rightarrow> tree \<Rightarrow> exc + tree" where
  "convert_to_dds E source data destination t =
     (if str_lower (path_suffix (path_name source)) = ''.dds''
      then Inr (t(destination \<mapsto> data))
      else if converter E = None \<or> converter E = Some []
      then Inl (BuildError ''No DDS converter (ImageMagick or texconv) available'')
      else case build_converter_command (converter E) source destination of
             Inl e \<Rightarrow> Inl e
           | Inr command \<Rightarrow>
               (case run_converter E command of
                  Inl stderr \<Rightarrow>
                    Inl (BuildError (''Failed to convert '' @ path_name source @ '' to DDS: '' @ stderr))
                | Inr out \<Rightarrow> Inr (t(destination \<mapsto> out))))"

text \<open>
  \<^verbatim>\<open>BuildService._convert_dds_assets\<close>. When the asset directory does not exist the
  stage returns at once; otherwise it creates the directory \<^verbatim>\<open>gfx\<close> before it lists the
  files, which the tree of files does not show.
\<close>

definition convert_dds_assets ::
  "env \<Rightarrow> string \<Rightarrow> path \<Rightarrow> bool \<Rightarrow> tree \<Rightarrow> tree \<times> event list \<times> exc option" where
  "convert_dds_assets E pid destination callback t =
     (let source_root = DDS_ROOT @ [pid]
      in case dds_files E of
           None \<Rightarrow> (t, [], None)
         | Some files \<Rightarrow>
             (let dds_root = destination @ [''gfx''];
                  tot = total_of files
              in files_loop
                   (\<lambda>(name, data) t.
                      let out_name = path_stem name @ ''.dds'';
                          target = dds_root @ [out_name]
                      in convert_to_dds E (source_root @ [name]) data target t)
                   ''dds'' (\<lambda>(name, data). ''Processed '' @ name) callback tot 1 files t))"

text \<open>
  The body of the loop of \<^verbatim>\<open>BuildService._package_audio_tracks\<close>: validate, copy,
  then write the sidecar when the loaded metadata is not empty.
\<close>

definition package_audio_file :: "env \<Rightarrow> listing \<Rightarrow> path \<Rightarrow> string \<times> string \<Rightarrow> tree \<Rightarrow> exc + tree" where
  "package_audio_file E files audio_root = (\<lambda>(name, data) t.
     case validate_audio name of
       Inl e \<Rightarrow> Inl e
     | Inr u \<Rightarrow>
         (let target = audio_root @ [name];
              t1 = t(target \<mapsto> data);
              md = load_asset_metadata E files name
          in if md \<noteq> []
             then Inr (save_metadata E (audio_root @ [name @ METADATA_EXTENSION]) md t1)
             else Inr t1))"

text \<open>
  \<^verbatim>\<open>BuildService._package_audio_tracks\<close>. When the asset directory does not exist the
  stage returns at once; otherwise it creates the directory \<^verbatim>\<open>sound\<close> before it lists
  the files, which the tree of files does not show.
\<close>

definition package_audio_tracks ::
  "env \<Rightarrow> string \<Rightarrow> path \<Rightarrow> bool \<Rightarrow> tree \<Rightarrow> tree \<times> event list \<times> exc option" where
  "package_audio_tracks E pid destination callback t =
     (case audio_files E of
        None \<Rightarrow> (t, [], None)
      | Some files \<Rightarrow>
          (let audio_root = destination @ [''sound''];
               tot = total_of files
           in files_loop (package_audio_file E files audio_root)
                ''audio'' (\<lambda>(name, data). ''Packaged '' @ name) callback tot 1 files t))"

text \<open>
  \<^verbatim>\<open>BuildService._write_descriptor\<close>: the manifest is the file \<^verbatim>\<open>project.json\<close>
  at the root of the project directory.
\<close>

definition write_descriptor ::
  "env \<Rightarrow> string \<Rightarrow> path \<Rightarrow> bool \<Rightarrow> tree \<Rightarrow> tree \<times> event list \<times> exc option" where
  "write_descriptor E pid destination callback t =
     (let descriptor_path = destination @ [''descriptor.mod''];
          md = (case map_of (project_files E) [''project.json''] of
                  Some text \<Rightarrow> parse_manifest E text
                | None \<Rightarrow> empty_metadata);
          descriptor = render_descriptor pid md
      in (t(descriptor_path \<mapsto> descriptor),
          (if callback then [(''descriptor'', 1, ''Descriptor generated'')] else []),
          None))"

section \<open>The build pipeline\<close>

type_synonym stage = "env \<Rightarrow> string \<Rightarrow> path \<Rightarrow> bool \<Rightarrow> tree \<Rightarrow> tree \<times> event list \<times> exc option"

text \<open>
  The closure \<^verbatim>\<open>step_callback\<close> of \<^verbatim>\<open>build_mod\<close>, as the calls it passes on to
  \<^verbatim>\<open>callback\<close> for one call it receives.
\<close>

definition step_callback :: "bool \<Rightarrow> rat \<Rightarrow> nat \<Rightarrow> event \<Rightarrow> event list" where
  "step_callback callback spn index = (\<lambda>(step_label, ratio, message).
     if \<not> callback then []
     else [(step_label, (of_nat index - 1) * spn + ratio * spn, message)])"

text \<open>
  The loop \<^verbatim>\<open>for index, step in enumerate(steps, start=1)\<close> of \<^verbatim>\<open>build_mod\<close>. Every
  stage is called with \<^verbatim>\<open>step_callback\<close>, so it always has a callback.
\<close>

fun run_steps ::
  "env \<Rightarrow> string \<Rightarrow> path \<Rightarrow> bool \<Rightarrow> rat \<Rightarrow> nat \<Rightarrow> (string \<times> stage) list \<Rightarrow> tree \<Rightarrow>
   tree \<times> event list \<times> exc option" where
  "run_steps E pid work_dir callback spn index [] t = (t, [], None)"
| "run_steps E pid work_dir callback spn index ((step_name, step) # steps) t =
     (let start =
            (if callback
             then [(step_name, (of_nat index - 1) * spn,
                    ''Running '' @ replace_char (CHR ''_'') (CHR '' '') step_name)]
             else [])
      in case step E pid work_dir True t of
           (t', evs, r) \<Rightarrow>
             (let reported = start @ concat (map (step_callback callback spn index) evs)
              in case r of
                   Some e \<Rightarrow> (t', reported, Some e)
                 | None \<Rightarrow>
                     (case run_steps E pid work_dir callback spn (Suc index) steps t' of
                        (t'', evs', r') \<Rightarrow> (t'', reported @ evs', r'))))"

definition build_root :: path where
  "build_root = BASE_STORAGE @ [''builds'']"

text \<open>
  \<^verbatim>\<open>BuildService._archive_build\<close>: the archive is
  \<^verbatim>\<open>build_root / f"{project_id}-{int(time.time())}"\<close> with the suffix \<^verbatim>\<open>.zip\<close> that
  \<^verbatim>\<open>shutil.make_archive\<close> adds.
\<close>

definition archive_build :: "env \<Rightarrow> string \<Rightarrow> exc + path" where
  "archive_build E pid =
     (case archive_error E of
        Some (n, s) \<Rightarrow> Inl (OSError n s)
      | None \<Rightarrow> Inr (build_root @ [pid @ ''-'' @ dec (timestamp E) @ ''.zip'']))"

text \<open>
  What a build does that others can see, in order: a call of the progress callback, or the
  archive file appearing at a path, holding the working tree.
\<close>

datatype effect = Progress string rat string | Archived path tree

definition progress_of :: "event \<Rightarrow> effect" where
  "progress_of = (\<lambda>(step_label, ratio, message). Progress step_label ratio message)"

definition steps :: "(string \<times> stage) list" where
  "steps = [(''collect_project_files'', collect_project_files),
            (''convert_dds_assets'', convert_dds_assets),
            (''package_audio_tracks'', package_audio_tracks),
            (''write_descriptor'', write_descriptor)]"

text \<open>
  The body of \<^verbatim>\<open>build_mod\<close> for a list of stages: the span \<open>spn\<close>, the stage loop on a fresh
  working directory, the archive step and the two calls around it.
\<close>

definition build_with ::
  "(string \<times> stage) list \<Rightarrow> env \<Rightarrow> string \<Rightarrow> bool \<Rightarrow> effect list \<times> (exc + path)" where
  "build_with sts E pid callback =
     (let work_dir = tmp_dir E @ [''mod''];
          spn = 1 / of_nat (length sts + 1)
      in case run_steps E pid work_dir callback spn 1 sts Map.empty of
           (t, evs, Some e) \<Rightarrow> (map progress_of evs, Inl e)
         | (t, evs, None) \<Rightarrow>
             (let before =
                    map progress_of evs @
                    (if callback
                     then [Progress ''archive'' (of_nat (length sts) * spn) ''Creating archive'']
                     else [])
              in case archive_build E pid of
                   Inl e \<Rightarrow> (before, Inl e)
                 | Inr archive_path \<Rightarrow>
                     (before @ [Archived archive_path t] @
                      (if callback then [Progress ''archive'' 1 ''Build complete''] else []),
                      Inr archive_path)))"

text \<open>\<^verbatim>\<open>BuildService.build_mod\<close>.\<close>

definition build_mod :: "env \<Rightarrow> string \<Rightarrow> bool \<Rightarrow> effect list \<times> (exc + path)" where
  "build_mod = build_with steps"

text \<open>The ratios passed to the callback, in order.\<close>

fun ratios :: "effect list \<Rightarrow> rat list" where
  "ratios [] = []"
| "ratios (Progress l r m # tr) = r # ratios tr"
| "ratios (Archived p t # tr) = ratios tr"

section \<open>Jobs and the build manager\<close>

text \<open>
  The dataclass \<^verbatim>\<open>BuildJob\<close>. The status is a string, as in the source; times are clock
  readings.
\<close>

record BuildJob =
  job_id :: string
  project_id :: string
  status :: string
  progress :: rat
  message :: string
  artifact_path :: "path option"
  created_at :: rat
  updated_at :: rat

text \<open>\<^verbatim>\<open>BuildJob(id=job_id, project_id=project_id)\<close>, created at the time \<open>now\<close>.\<close>

definition new_job :: "string \<Rightarrow> string \<Rightarrow> rat \<Rightarrow> BuildJob" where
  "new_job jid pid now =
     \<lparr>job_id = jid, project_id = pid, status = ''queued'', progress = 0, message = ''Queued'',
      artifact_path = None, created_at = now, updated_at = now\<rparr>"

text \<open>
  The writes \<^verbatim>\<open>_run_job\<close> makes to its job object are assignments to single fields.
  The closure \<^verbatim>\<open>update\<close> and the blocks that mark the job completed or failed run under
  the manager's lock, but a reader reads the fields of the object it got from
  \<^verbatim>\<open>get_job\<close> after the lock is released, so the state between two assignments of a
  block can be seen. Every assignment is therefore a step of its own, in the order of the
  source.
\<close>

datatype job_write =
    SetStatus string
  | SetProgress rat
  | SetMessage string
  | SetArtifact path
  | SetUpdated

fun apply_write :: "rat \<Rightarrow> job_write \<Rightarrow> BuildJob \<Rightarrow> BuildJob" where
  "apply_write now (SetStatus s) job = job\<lparr>status := s\<rparr>"
| "apply_write now (SetProgress ratio) job = job\<lparr>progress := ratio\<rparr>"
| "apply_write now (SetMessage msg) job = job\<lparr>message := msg\<rparr>"
| "apply_write now (SetArtifact archive_path) job = job\<lparr>artifact_path := Some archive_path\<rparr>"
| "apply_write now SetUpdated job = job\<lparr>updated_at := now\<rparr>"

text \<open>The closure \<^verbatim>\<open>update(step, ratio, message)\<close> of \<^verbatim>\<open>_run_job\<close>.\<close>

definition update :: "string \<Rightarrow> rat \<Rightarrow> string \<Rightarrow> job_write list" where
  "update step ratio msg = [SetStatus ''running'', SetProgress ratio, SetMessage msg, SetUpdated]"

text \<open>The block of \<^verbatim>\<open>_run_job\<close> after \<^verbatim>\<open>build_mod\<close> has returned the archive path.\<close>

definition mark_completed :: "path \<Rightarrow> job_write list" where
  "mark_completed archive_path =
     [SetStatus ''completed'', SetProgress 1, SetMessage ''Build completed'',
      SetArtifact archive_path, SetUpdated]"

text \<open>The block of \<^verbatim>\<open>_run_job\<close> in \<^verbatim>\<open>except Exception as exc\<close>, with \<^verbatim>\<open>str(exc)\<close>.\<close>

definition mark_failed :: "string \<Rightarrow> job_write list" where
  "mark_failed msg = [SetStatus ''failed'', SetMessage msg, SetUpdated]"

text \<open>
  What the thread of a job does, step by step: a write to the job object, or the archive
  file appearing on disk.
\<close>

datatype action = Write job_write | CreateFile path tree

fun actions_of :: "effect \<Rightarrow> action list" where
  "actions_of (Progress step ratio msg) = map Write (update step ratio msg)"
| "actions_of (Archived p t) = [CreateFile p t]"

text \<open>
  The body of \<^verbatim>\<open>_run_job\<close> after the job has been looked up: the two assignments
  \<^verbatim>\<open>job.status = "running"\<close> and \<^verbatim>\<open>job.message = "Starting build"\<close>, the build with
  \<^verbatim>\<open>update\<close> as its callback, and the block for its outcome;
  \<^verbatim>\<open>except Exception\<close> catches every exception of the build.
\<close>

definition run_job_actions :: "env \<Rightarrow> string \<Rightarrow> action list" where
  "run_job_actions E pid =
     [Write (SetStatus ''running''), Write (SetMessage ''Starting build'')] @
     (case build_mod E pid True of
        (tr, Inr archive_path) \<Rightarrow> concat (map actions_of tr) @ map Write (mark_completed archive_path)
      | (tr, Inl e) \<Rightarrow> concat (map actions_of tr) @ map Write (mark_failed (str_exc e)))"


text \<open>
  The manager. Job objects live in a heap and \<^verbatim>\<open>self.jobs\<close> maps a job id to the
  reference of its object; \<^verbatim>\<open>start_build\<close> and \<^verbatim>\<open>get_job\<close> hand out such references.
  There is one thread for each job id: it is spawned with the environment its build will
  read, looks its job up, and then carries out its actions one at a time. \<open>disk\<close> holds
  the archives written under the build root.
\<close>

datatype thread = Spawned env | Running nat "action list" | Finished

record manager =
  heap :: "nat \<rightharpoonup> BuildJob"
  jobs :: "string \<rightharpoonup> nat"
  threads :: "string \<rightharpoonup> thread"
  disk :: "path \<rightharpoonup> tree"
  next_ref :: nat

definition empty_manager :: manager where
  "empty_manager =
     \<lparr>heap = Map.empty, jobs = Map.empty, threads = Map.empty, disk = Map.empty, next_ref = 0\<rparr>"

text \<open>
  \<^verbatim>\<open>BuildManager.start_build\<close>, with the id \<open>jid\<close> that \<^verbatim>\<open>uuid.uuid4()\<close> gave: it
  returns the reference of the new job object.
\<close>

definition start_build :: "string \<Rightarrow> string \<Rightarrow> env \<Rightarrow> rat \<Rightarrow> manager \<Rightarrow> nat \<times> manager" where
  "start_build pid jid E now m =
     (let job = new_job jid pid now;
          r = next_ref m
      in (r, m\<lparr>heap := (heap m)(r \<mapsto> job), jobs := (jobs m)(jid \<mapsto> r),
                 threads := (threads m)(jid \<mapsto> Spawned E), next_ref := Suc r\<rparr>))"

text \<open>\<^verbatim>\<open>BuildManager.get_job\<close> returns the reference the registry holds, if any.\<close>

definition get_job :: "manager \<Rightarrow> string \<Rightarrow> nat option" where
  "get_job m jid = jobs m jid"

text \<open>
  One move of the thread of job \<open>jid\<close> at the time \<open>now\<close>; \<open>None\<close> when it has no move.
  A spawned thread runs \<^verbatim>\<open>job = self.get_job(job_id)\<close> and returns at once if there is
  no such job.
\<close>

definition thread_step :: "string \<Rightarrow> rat \<Rightarrow> manager \<Rightarrow> manager option" where
  "thread_step jid now m =
     (case threads m jid of
        None \<Rightarrow> None
      | Some Finished \<Rightarrow> None
      | Some (Spawned E) \<Rightarrow>
          (case get_job m jid of
             None \<Rightarrow> Some (m\<lparr>threads := (threads m)(jid \<mapsto> Finished)\<rparr>)
           | Some r \<Rightarrow>
               (case heap m r of
                  None \<Rightarrow> None
                | Some job \<Rightarrow>
                    Some (m\<lparr>threads :=
                             (threads m)(jid \<mapsto> Running r (run_job_actions E (project_id job)))\<rparr>)))
      | Some (Running r []) \<Rightarrow> Some (m\<lparr>threads := (threads m)(jid \<mapsto> Finished)\<rparr>)
      | Some (Running r (Write w # acts)) \<Rightarrow>
          (case heap m r of
             None \<Rightarrow> None
           | Some job \<Rightarrow>
               Some (m\<lparr>heap := (heap m)(r \<mapsto> apply_write now w job),
                       threads := (threads m)(jid \<mapsto> Running r acts)\<rparr>))
      | Some (Running r (CreateFile p t # acts)) \<Rightarrow>
          Some (m\<lparr>disk := (disk m)(p \<mapsto> t), threads := (threads m)(jid \<mapsto> Running r acts)\<rparr>))"

text \<open>
  The operations that change the manager: a call of \<^verbatim>\<open>start_build\<close>, whose fresh id is
  not yet in use, and a move of a thread.
\<close>

datatype operation = StartBuild string string env rat | ThreadStep string rat

fun step :: "operation \<Rightarrow> manager \<Rightarrow> manager option" where
  "step (StartBuild pid jid E now) m =
     (if jid \<in> dom (jobs m) \<or> jid \<in> dom (threads m) then None
      else Some (snd (start_build pid jid E now m)))"
| "step (ThreadStep jid now) m = thread_step jid now m"

fun exec :: "operation list \<Rightarrow> manager \<Rightarrow> manager option" where
  "exec [] m = Some m"
| "exec (op # ops) m = (case step op m of None \<Rightarrow> None | Some m' \<Rightarrow> exec ops m')"

definition terminal :: "BuildJob \<Rightarrow> bool" where
  "terminal job = (status job = ''completed'' \<or> status job = ''failed'')"

section \<open>Auxiliary notions for stating the properties\<close>

text \<open>
  The stages run one after the other with no rescaling: what each stage reported, in
  order, with the final tree and the exception that ended the run, if any.
\<close>

fun stages_raw ::
  "env \<Rightarrow> string \<Rightarrow> path \<Rightarrow> (string \<times> stage) list \<Rightarrow> tree \<Rightarrow>
   (string \<times> event list) list \<times> tree \<times> exc option" where
  "stages_raw E pid work_dir [] t = ([], t, None)"
| "stages_raw E pid work_dir ((step_name, st) # sts) t =
     (case st E pid work_dir True t of
        (t', evs, Some e) \<Rightarrow> ([(step_name, evs)], t', Some e)
      | (t', evs, None) \<Rightarrow>
          (case stages_raw E pid work_dir sts t' of
             (outs, t'', r) \<Rightarrow> ((step_name, evs) # outs, t'', r)))"

text \<open>
  What the pipeline reports for stage \<open>i\<close> with span \<open>s\<close>: the start of the stage at
  \<open>(i - 1) * s\<close>, then each report \<open>r\<close> of the stage at \<open>(i - 1) * s + r * s\<close>.
\<close>

definition stage_reports :: "rat \<Rightarrow> nat \<times> string \<times> event list \<Rightarrow> event list" where
  "stage_reports s = (\<lambda>(i, step_name, evs).
     (step_name, (of_nat i - 1) * s, ''Running '' @ replace_char (CHR ''_'') (CHR '' '') step_name) #
     map (\<lambda>(step_label, r, message). (step_label, (of_nat i - 1) * s + r * s, message)) evs)"



text \<open>
  The calls a file loop makes for the files it gets through: the \<open>k\<close>-th file, counted
  from \<open>index\<close>, is reported with the ratio \<open>k / tot\<close>.
\<close>

definition loop_events :: "string \<Rightarrow> ('f \<Rightarrow> string) \<Rightarrow> nat \<Rightarrow> nat \<Rightarrow> 'f list \<Rightarrow> event list" where
  "loop_events label msg tot index files =
     map (\<lambda>(k, f). (label, of_nat k / of_nat tot, msg f)) (enumerate index files)"

text \<open>What the collect stage writes for a project file.\<close>

definition copy_file :: "path \<Rightarrow> path \<times> string \<Rightarrow> tree \<Rightarrow> tree" where
  "copy_file destination = (\<lambda>(rel, data) t. t(destination @ rel \<mapsto> data))"

text \<open>The files the texture stage copies without a converter.\<close>

definition is_dds :: "string \<times> string \<Rightarrow> bool" where
  "is_dds = (\<lambda>(name, data). str_lower (path_suffix name) = ''.dds'')"

definition copy_dds :: "path \<Rightarrow> string \<times> string \<Rightarrow> tree \<Rightarrow> tree" where
  "copy_dds dds_root = (\<lambda>(name, data) t. t(dds_root @ [path_stem name @ ''.dds''] \<mapsto> data))"

text \<open>
  The files the audio stage accepts, and what it writes for an accepted file: the copy,
  and the sidecar when the loaded metadata is not empty.
\<close>

definition is_audio :: "string \<times> string \<Rightarrow> bool" where
  "is_audio = (\<lambda>(name, data). str_lower (path_suffix name) \<in> {''.ogg'', ''.wav''})"

definition packaged :: "env \<Rightarrow> listing \<Rightarrow> path \<Rightarrow> string \<times> string \<Rightarrow> tree \<Rightarrow> tree" where
  "packaged E files audio_root = (\<lambda>(name, data) t.
     if load_asset_metadata E files name \<noteq> []
     then (t(audio_root @ [name] \<mapsto> data))
            (audio_root @ [name @ ''.json''] \<mapsto> dump_sidecar E (load_asset_metadata E files name))
     else t(audio_root @ [name] \<mapsto> data))"

definition unsupported_audio :: "string \<times> string \<Rightarrow> exc" where
  "unsupported_audio = (\<lambda>(name, data). BuildError (''Unsupported audio format: '' @ path_suffix name))"

definition no_converter :: exc where
  "no_converter = BuildError ''No DDS converter (ImageMagick or texconv) available''"



text \<open>
  Reports whose messages are not empty, and a stage all of whose runs report so and whose
  exceptions all carry a non-empty text.
\<close>

definition worded_events :: "event list \<Rightarrow> bool" where
  "worded_events evs = list_all (\<lambda>e. snd (snd e) \<noteq> []) evs"

definition worded_stage :: "stage \<Rightarrow> bool" where
  "worded_stage st =
     (\<forall>E pid work_dir callback t.
        worded_events (fst (snd (st E pid work_dir callback t))) \<and>
        (\<forall>e. snd (snd (st E pid work_dir callback t)) = Some e \<longrightarrow> str_exc e \<noteq> []))"

text \<open>
  The values the actions assign to the progress field, in order.
\<close>

fun progress_values :: "action list \<Rightarrow> rat list" where
  "progress_values [] = []"
| "progress_values (Write (SetProgress x) # acts) = x # progress_values acts"
| "progress_values (a # acts) = progress_values acts"

text \<open>
  The invariant of the manager. At every moment a job object has a non-empty message, and
  no artifact path unless its status is \<^verbatim>\<open>completed\<close> (\<open>sound_job\<close>). A job whose thread
  has carried out all its writes is terminal, and if it is completed its artifact is on
  disk (\<open>job_ok\<close>). \<open>run_ok\<close> says that the writes a thread still has to carry out keep
  the first and end in the second, and leave the status and the progress of a terminal job
  as they are. It follows the job through these writes; the time of a write plays no part
  in it, so it is taken to be 0 there.
\<close>

definition sound_job :: "BuildJob \<Rightarrow> bool" where
  "sound_job job = (message job \<noteq> [] \<and> (status job \<noteq> ''completed'' \<longrightarrow> artifact_path job = None))"

definition live_job :: "BuildJob \<Rightarrow> bool" where
  "live_job job = (\<not> terminal job \<and> message job \<noteq> [] \<and> artifact_path job = None)"

definition job_ok :: "(path \<rightharpoonup> tree) \<Rightarrow> BuildJob \<Rightarrow> bool" where
  "job_ok D job =
     (message job \<noteq> [] \<and>
      (if status job = ''completed''
       then (case artifact_path job of None \<Rightarrow> False | Some p \<Rightarrow> p \<in> dom D)
       else artifact_path job = None))"

definition keeps :: "job_write \<Rightarrow> BuildJob \<Rightarrow> bool" where
  "keeps w job =
     (status (apply_write 0 w job) = status job \<and> progress (apply_write 0 w job) = progress job)"

fun run_ok :: "(path \<rightharpoonup> tree) \<Rightarrow> BuildJob \<Rightarrow> action list \<Rightarrow> bool" where
  "run_ok D job [] = (terminal job \<and> job_ok D job)"
| "run_ok D job (Write w # acts) =
     (sound_job job \<and> (terminal job \<longrightarrow> keeps w job) \<and> run_ok D (apply_write 0 w job) acts)"
| "run_ok D job (CreateFile p t # acts) = (sound_job job \<and> run_ok (D(p \<mapsto> t)) job acts)"

definition thread_ok :: "manager \<Rightarrow> string \<Rightarrow> thread \<Rightarrow> bool" where
  "thread_ok m jid th =
     (case jobs m jid of
        None \<Rightarrow> False
      | Some r \<Rightarrow>
          (case heap m r of
             None \<Rightarrow> False
           | Some job \<Rightarrow>
               (case th of
                  Spawned E \<Rightarrow> live_job job
                | Running r' acts \<Rightarrow> r' = r \<and> run_ok (disk m) job acts
                | Finished \<Rightarrow> terminal job \<and> job_ok (disk m) job)))"

definition manager_inv :: "manager \<Rightarrow> bool" where
  "manager_inv m =
     ((\<forall>r job. heap m r = Some job \<longrightarrow>
         r < next_ref m \<and> jobs m (job_id job) = Some r \<and> threads m (job_id job) \<noteq> None) \<and>
      (\<forall>jid r. jobs m jid = Some r \<longrightarrow> (\<exists>job. heap m r = Some job \<and> job_id job = jid)) \<and>
      (\<forall>jid th. threads m jid = Some th \<longrightarrow> thread_ok m jid th))"

text \<open>The thread of the job \<open>jid\<close> has carried out all its writes.\<close>

definition thread_done :: "manager \<Rightarrow> string \<Rightarrow> bool" where
  "thread_done m jid =
     (case threads m jid of
        Some (Running r []) \<Rightarrow> True
      | Some Finished \<Rightarrow> True
      | _ \<Rightarrow> False)"

text \<open>
  A small concrete environment: an empty project with no asset directories and no
  converter, whose JSON reader takes the text \<^verbatim>\<open>{}\<close> for the empty object.
\<close>

definition demo_env :: env where
  "demo_env =
     \<lparr>project_files = [], dds_files = None, audio_files = None, converter = None,
      run_converter = (\<lambda>command. Inl ''failed''),
      parse_manifest = (\<lambda>text. empty_metadata),
      parse_sidecar = (\<lambda>text. if text = ''{}'' then [] else [(''title'', text)]),
      dump_sidecar = (\<lambda>p. concat (map (\<lambda>(k, v). k @ '':'' @ v @ '';'') p)),
      tmp_dir = [''tmp'', ''openck3-demo''], timestamp = 1700000000, archive_error = None\<rparr>"

text \<open>
  One build of the project \<^verbatim>\<open>p\<close> in that environment: \<^verbatim>\<open>start_build\<close>, then the moves of
  its thread up to and including the assignment \<^verbatim>\<open>job.status = "completed"\<close>
  (\<open>demo_prefix\<close>), and the four assignments that remain (\<open>demo_rest\<close>).
\<close>

definition demo_prefix :: "operation list" where
  "demo_prefix =
     [StartBuild ''p'' ''j'' demo_env 0,
      ThreadStep ''j'' 1, ThreadStep ''j'' 2, ThreadStep ''j'' 3, ThreadStep ''j'' 4,
      ThreadStep ''j'' 5, ThreadStep ''j'' 6, ThreadStep ''j'' 7, ThreadStep ''j'' 8,
      ThreadStep ''j'' 9, ThreadStep ''j'' 10, ThreadStep ''j'' 11, ThreadStep ''j'' 12,
      ThreadStep ''j'' 13, ThreadStep ''j'' 14, ThreadStep ''j'' 15, ThreadStep ''j'' 16,
      ThreadStep ''j'' 17, ThreadStep ''j'' 18, ThreadStep ''j'' 19, ThreadStep ''j'' 20,
      ThreadStep ''j'' 21, ThreadStep ''j'' 22, ThreadStep ''j'' 23, ThreadStep ''j'' 24,
      ThreadStep ''j'' 25, ThreadStep ''j'' 26, ThreadStep ''j'' 27, ThreadStep ''j'' 28,
      ThreadStep ''j'' 29, ThreadStep ''j'' 30, ThreadStep ''j'' 31, ThreadStep ''j'' 32,
      ThreadStep ''j'' 33]"

definition demo_rest :: "operation list" where
  "demo_rest =
     [ThreadStep ''j'' 34, ThreadStep ''j'' 35, ThreadStep ''j'' 36, ThreadStep ''j'' 37]"

section \<open>Properties\<close>

subsection \<open>Suffixes and lowercase\<close>

lemma rfind_last_dot:
  "CHR ''.'' \<notin> set e \<Longrightarrow> rfind (CHR ''.'') (stem @ CHR ''.'' # e) = int (length stem)"
proof -
  assume a: "CHR ''.'' \<notin> set e"
  have "takeWhile (\<lambda>x. x \<noteq> CHR ''.'') (rev e @ CHR ''.'' # rev stem) = rev e"
    using a by (auto simp add: takeWhile_tail)
  then show ?thesis by (simp add: rfind_def)
qed

lemma path_suffix_append:
  "stem \<noteq> [] \<Longrightarrow> e \<noteq> [] \<Longrightarrow> CHR ''.'' \<notin> set e \<Longrightarrow>
   path_suffix (stem @ CHR ''.'' # e) = CHR ''.'' # e"
  by (simp add: path_suffix_def rfind_last_dot)

lemma path_stem_append:
  "stem \<noteq> [] \<Longrightarrow> e \<noteq> [] \<Longrightarrow> CHR ''.'' \<notin> set e \<Longrightarrow>
   path_stem (stem @ CHR ''.'' # e) = stem"
  by (simp add: path_stem_def rfind_last_dot)

lemma stem_suffix: "path_stem name @ path_suffix name = name"
  by (simp add: path_stem_def path_suffix_def Let_def)


lemma of_char_dot: "(of_char (CHR ''.'') :: nat) = 46"
  by code_simp

lemma lower_char_dot: "(lower_char c = CHR ''.'') = (c = CHR ''.'')"
proof
  assume h: "lower_char c = CHR ''.''"
  show "c = CHR ''.''"
  proof (cases "65 \<le> (of_char c :: nat) \<and> (of_char c :: nat) \<le> 90")
    case True
    then have e: "lower_char c = char_of ((of_char c :: nat) + 32)"
      unfolding lower_char_def Let_def by (rule if_P)
    have "char_of ((of_char c :: nat) + 32) = CHR ''.''" using h unfolding e .
    then have "(of_char (char_of ((of_char c :: nat) + 32) :: char) :: nat) = of_char (CHR ''.'')"
      by (rule arg_cong)
    then have "((of_char c :: nat) + 32) mod 256 = 46"
      unfolding of_char_of of_char_dot .
    moreover have "((of_char c :: nat) + 32) mod 256 = (of_char c :: nat) + 32"
      using True by (intro mod_less) linarith
    ultimately have "(of_char c :: nat) + 32 = 46" by linarith
    with True show ?thesis by linarith
  next
    case False
    then have e: "lower_char c = c"
      unfolding lower_char_def Let_def by (rule if_not_P)
    show ?thesis using h unfolding e .
  qed
next
  assume "c = CHR ''.''"
  then show "lower_char c = CHR ''.''" unfolding lower_char_def Let_def of_char_dot by simp
qed


lemma lower_ext_shape:
  assumes "str_lower ext = [CHR ''.'', a, b, c]" and "a \<noteq> CHR ''.''" "b \<noteq> CHR ''.''" "c \<noteq> CHR ''.''"
  shows "\<exists>e. ext = CHR ''.'' # e \<and> e \<noteq> [] \<and> CHR ''.'' \<notin> set e"
proof -
  from assms(1) obtain w x y z where e: "ext = [w, x, y, z]"
    and l: "lower_char w = CHR ''.''" "lower_char x = a" "lower_char y = b" "lower_char z = c"
    by (auto simp add: str_lower_def map_eq_Cons_conv)
  from l(1) have "w = CHR ''.''" by (simp only: lower_char_dot)
  moreover have "x \<noteq> CHR ''.''" "y \<noteq> CHR ''.''" "z \<noteq> CHR ''.''"
    using l assms(2-4) lower_char_dot by blast+
  ultimately show ?thesis using e by auto
qed

lemma suffix_of_ext:
  assumes "stem \<noteq> []" and "str_lower ext \<in> {''.ogg'', ''.wav'', ''.mp3'', ''.dds''}"
  shows "path_suffix (stem @ ext) = ext"
proof -
  from assms(2) have "\<exists>e. ext = CHR ''.'' # e \<and> e \<noteq> [] \<and> CHR ''.'' \<notin> set e"
    by (auto intro!: lower_ext_shape)
  then show ?thesis using assms(1) by (auto simp add: path_suffix_append)
qed

subsection \<open>The file loop in closed form\<close>

lemma loop_events_Nil: "loop_events label msg tot index [] = []"
  by (simp add: loop_events_def)

lemma loop_events_Cons:
  "loop_events label msg tot index (f # files) =
   (label, of_nat index / of_nat tot, msg f) # loop_events label msg tot (Suc index) files"
  by (simp add: loop_events_def)

lemma files_loop_char:
  assumes b: "\<And>f t. body f t = (if ok f then Inr (upd f t) else Inl (err f))"
  shows "files_loop body label msg cb tot i files t =
     (foldl (\<lambda>t f. upd f t) t (takeWhile ok files),
      (if cb then loop_events label msg tot i (takeWhile ok files) else []),
      (case dropWhile ok files of [] \<Rightarrow> None | f # rest \<Rightarrow> Some (err f)))"
proof (induction files arbitrary: i t)
  case Nil
  show ?case by (simp add: loop_events_Nil)
next
  case (Cons f files)
  show ?case
  proof (cases "ok f")
    case True
    then show ?thesis by (simp add: b [of f t] Cons.IH loop_events_Cons)
  next
    case False
    then show ?thesis by (simp add: b [of f t] loop_events_Nil)
  qed
qed

subsection \<open>The stages in closed form\<close>

lemma path_name_snoc: "path_name (p @ [name]) = name"
  by (simp add: path_name_def)

lemma convert_to_dds_copy:
  "str_lower (path_suffix (path_name source)) = ''.dds'' \<Longrightarrow>
   convert_to_dds E source data destination t = Inr (t(destination \<mapsto> data))"
  by (simp add: convert_to_dds_def)

lemma convert_to_dds_no_converter:
  "converter E = None \<Longrightarrow> str_lower (path_suffix (path_name source)) \<noteq> ''.dds'' \<Longrightarrow>
   convert_to_dds E source data destination t = Inl no_converter"
  by (simp add: convert_to_dds_def no_converter_def)

lemma convert_dds_assets_no_converter:
  assumes "converter E = None" and "dds_files E = Some files"
  shows "convert_dds_assets E pid destination callback t =
     (foldl (\<lambda>t f. copy_dds (destination @ [''gfx'']) f t) t (takeWhile is_dds files),
      (if callback
       then loop_events ''dds'' (\<lambda>(name, data). ''Processed '' @ name) (total_of files) 1
              (takeWhile is_dds files)
       else []),
      (case dropWhile is_dds files of [] \<Rightarrow> None | f # rest \<Rightarrow> Some no_converter))"
proof -
  define B where "B = (\<lambda>(name, data) t.
        let out_name = path_stem name @ ''.dds''; target = (destination @ [''gfx'']) @ [out_name]
        in convert_to_dds E ((DDS_ROOT @ [pid]) @ [name]) data target t)"
  have stage: "convert_dds_assets E pid destination callback t =
      files_loop B ''dds'' (\<lambda>(name, data). ''Processed '' @ name) callback (total_of files) 1 files t"
    using assms(2) by (simp add: convert_dds_assets_def B_def Let_def)
  have body: "\<And>f t. B f t =
      (if is_dds f then Inr (copy_dds (destination @ [''gfx'']) f t) else Inl no_converter)"
    using assms(1)
    by (auto simp add: B_def is_dds_def copy_dds_def Let_def path_name_def convert_to_dds_copy
        convert_to_dds_no_converter split: prod.splits)
  show ?thesis
    unfolding stage
    using files_loop_char [of B is_dds "copy_dds (destination @ [''gfx''])" "\<lambda>f. no_converter", OF body]
    by simp
qed


lemma package_audio_file_char:
  "package_audio_file E files audio_root f t =
     (if is_audio f then Inr (packaged E files audio_root f t) else Inl (unsupported_audio f))"
  by (auto simp add: package_audio_file_def validate_audio_def is_audio_def packaged_def
      unsupported_audio_def save_metadata_def Let_def METADATA_EXTENSION_def split: prod.splits)

lemma package_audio_tracks_char:
  assumes "audio_files E = Some files"
  shows "package_audio_tracks E pid destination callback t =
     (foldl (\<lambda>t f. packaged E files (destination @ [''sound'']) f t) t (takeWhile is_audio files),
      (if callback
       then loop_events ''audio'' (\<lambda>(name, data). ''Packaged '' @ name) (total_of files) 1
              (takeWhile is_audio files)
       else []),
      (case dropWhile is_audio files of [] \<Rightarrow> None | f # rest \<Rightarrow> Some (unsupported_audio f)))"
proof -
  have stage: "package_audio_tracks E pid destination callback t =
      files_loop (package_audio_file E files (destination @ [''sound''])) ''audio''
        (\<lambda>(name, data). ''Packaged '' @ name) callback (total_of files) 1 files t"
    using assms by (simp add: package_audio_tracks_def Let_def)
  show ?thesis
    unfolding stage
    using files_loop_char [of "package_audio_file E files (destination @ [''sound''])" is_audio
        "packaged E files (destination @ [''sound''])" unsupported_audio,
        OF package_audio_file_char]
    by simp
qed

lemma load_asset_metadata_lookup:
  "load_asset_metadata E files name =
     (case map_of files (name @ ''.json'') of Some text \<Rightarrow> parse_sidecar E text | None \<Rightarrow> [])"
proof -
  have "with_suffix name (path_suffix name @ METADATA_EXTENSION) = name @ ''.json''"
    using stem_suffix [of name]
    by (simp add: with_suffix_def METADATA_EXTENSION_def flip: append_assoc)
  then show ?thesis by (simp add: load_asset_metadata_def)
qed

lemma collect_project_files_char:
  "collect_project_files E pid destination callback t =
     (foldl (\<lambda>t f. copy_file destination f t) t (project_files E),
      (if callback
       then loop_events ''collect'' (\<lambda>(rel, data). ''Copied '' @ str_path rel)
              (total_of (project_files E)) 1 (project_files E)
       else []),
      None)"
proof -
  define B :: "path \<times> string \<Rightarrow> tree \<Rightarrow> exc + tree"
    where "B = (\<lambda>(rel, data) t. Inr (t(destination @ rel \<mapsto> data)))"
  have stage: "collect_project_files E pid destination callback t =
      files_loop B ''collect'' (\<lambda>(rel, data). ''Copied '' @ str_path rel) callback
        (total_of (project_files E)) 1 (project_files E) t"
    by (simp add: collect_project_files_def B_def Let_def)
  have body: "\<And>f t. B f t = (if (\<lambda>f. True) f then Inr (copy_file destination f t) else Inl no_converter)"
    by (simp add: B_def copy_file_def split: prod.splits)
  have all: "takeWhile (\<lambda>f. True) (project_files E) = project_files E"
    "dropWhile (\<lambda>f. True) (project_files E) = []"
    by simp_all
  show ?thesis
    unfolding stage
    using files_loop_char [of B "\<lambda>f. True" "copy_file destination" "\<lambda>f. no_converter", OF body]
    by (simp add: all)
qed

subsection \<open>Suffixes of the example files\<close>

lemma demo_suffixes:
  "path_suffix ''coat.DDS'' = ''.DDS''" "path_stem ''coat.DDS'' = ''coat''"
  "path_suffix ''arms.dds'' = ''.dds''" "path_stem ''arms.dds'' = ''arms''"
  "path_suffix ''coat.png'' = ''.png''" "path_suffix ''theme.ogg'' = ''.ogg''"
  "path_suffix ''march.wav'' = ''.wav''" "path_suffix ''battle.mp3'' = ''.mp3''"
  "path_suffix ''theme.ogg.json'' = ''.json''"
  "str_lower ''.DDS'' = ''.dds''" "str_lower ''.dds'' = ''.dds''" "str_lower ''.png'' = ''.png''"
  "str_lower ''.ogg'' = ''.ogg''" "str_lower ''.wav'' = ''.wav''" "str_lower ''.mp3'' = ''.mp3''"
  "str_lower ''.json'' = ''.json''"
  by code_simp+

subsection \<open>The stage loop in closed form\<close>

lemma step_callback_True:
  "concat (map (step_callback True s i) evs) =
   map (\<lambda>(step_label, r, message). (step_label, (of_nat i - 1) * s + r * s, message)) evs"
  by (induction evs) (auto simp add: step_callback_def)

lemma run_steps_raw:
  "run_steps E pid work_dir True s i sts t =
     (case stages_raw E pid work_dir sts t of
        (outs, t', r) \<Rightarrow> (t', concat (map (stage_reports s) (enumerate i outs)), r))"
proof (induction sts arbitrary: i t)
  case Nil
  show ?case by simp
next
  case (Cons a sts)
  obtain step_name st where a: "a = (step_name, st)" by (cases a)
  obtain t' evs r where st: "st E pid work_dir True t = (t', evs, r)"
    by (cases "st E pid work_dir True t")
  show ?case
  proof (cases r)
    case None
    obtain outs t'' r' where raw: "stages_raw E pid work_dir sts t' = (outs, t'', r')"
      by (cases "stages_raw E pid work_dir sts t'")
    show ?thesis
      using Cons.IH [of "Suc i" t']
      by (simp add: a st None raw step_callback_True stage_reports_def)
  next
    case (Some e)
    then show ?thesis
      by (simp add: a st step_callback_True stage_reports_def)
  qed
qed

lemma build_with_raw:
  "build_with sts E pid True =
     (let s = 1 / of_nat (length sts + 1)
      in case stages_raw E pid (tmp_dir E @ [''mod'']) sts Map.empty of
           (outs, t, Some e) \<Rightarrow>
             (map progress_of (concat (map (stage_reports s) (enumerate 1 outs))), Inl e)
         | (outs, t, None) \<Rightarrow>
             (case archive_build E pid of
                Inl e \<Rightarrow>
                  (map progress_of (concat (map (stage_reports s) (enumerate 1 outs))) @
                   [Progress ''archive'' (of_nat (length sts) * s) ''Creating archive''],
                   Inl e)
              | Inr archive_path \<Rightarrow>
                  (map progress_of (concat (map (stage_reports s) (enumerate 1 outs))) @
                   [Progress ''archive'' (of_nat (length sts) * s) ''Creating archive'',
                    Archived archive_path t,
                    Progress ''archive'' 1 ''Build complete''],
                   Inr archive_path)))"
  unfolding build_with_def Let_def run_steps_raw
  by (simp split: prod.split option.split sum.split)

subsection \<open>What the stages report\<close>








subsection \<open>Bounds on what the pipeline reports\<close>








subsection \<open>The progress history of a job\<close>

lemma progress_apply_write:
  "progress (apply_write now w job) = (case w of SetProgress x \<Rightarrow> x | _ \<Rightarrow> progress job)"
  by (cases w) simp_all

lemma progress_values_Write:
  "progress_values (Write w # acts) =
     (case w of SetProgress x \<Rightarrow> x # progress_values acts | _ \<Rightarrow> progress_values acts)"
  by (cases w) simp_all








subsection \<open>Progress never goes down\<close>



subsection \<open>How a build ends\<close>

lemma files_loop_error:
  "files_loop body label msg cb tot i files t = (t', evs, Some e) \<Longrightarrow> \<exists>f t0. body f t0 = Inl e"
proof (induction files arbitrary: i t t' evs)
  case Nil
  then show ?case by simp
next
  case (Cons f files)
  show ?case
  proof (cases "body f t")
    case (Inl e')
    with Cons.prems have "e' = e" by simp
    with Inl show ?thesis by blast
  next
    case (Inr t1)
    obtain t2 evs2 r2 where rec: "files_loop body label msg cb tot (Suc i) files t1 = (t2, evs2, r2)"
      by (cases "files_loop body label msg cb tot (Suc i) files t1")
    with Cons.prems Inr have "r2 = Some e" by simp
    with rec Cons.IH show ?thesis by blast
  qed
qed

lemma files_loop_worded:
  assumes w: "\<And>f. msg f \<noteq> []"
  shows "files_loop body label msg cb tot i files t = (t', evs, r) \<Longrightarrow> worded_events evs"
proof (induction files arbitrary: i t t' evs r)
  case Nil
  then show ?case by (simp add: worded_events_def)
next
  case (Cons f files)
  show ?case
  proof (cases "body f t")
    case (Inl e')
    with Cons.prems show ?thesis by (simp add: worded_events_def)
  next
    case (Inr t1)
    obtain t2 evs2 r2 where rec: "files_loop body label msg cb tot (Suc i) files t1 = (t2, evs2, r2)"
      by (cases "files_loop body label msg cb tot (Suc i) files t1")
    from Cons.IH [OF rec] have "worded_events evs2" .
    moreover have "evs = (if cb then [(label, of_nat i / of_nat tot, msg f)] else []) @ evs2"
      using Cons.prems by (simp add: Inr rec)
    ultimately show ?thesis using w [of f] by (simp add: worded_events_def)
  qed
qed

lemma convert_to_dds_worded:
  "convert_to_dds E source data destination t = Inl e \<Longrightarrow> str_exc e \<noteq> []"
  by (auto simp add: convert_to_dds_def build_converter_command_def
      split: if_splits sum.splits)

lemma worded_stageI:
  assumes "\<And>E pid work_dir callback t t' evs r.
      st E pid work_dir callback t = (t', evs, r) \<Longrightarrow>
      worded_events evs \<and> (\<forall>e. r = Some e \<longrightarrow> str_exc e \<noteq> [])"
  shows "worded_stage st"
  unfolding worded_stage_def
proof (intro allI)
  fix E pid work_dir callback t
  obtain t' evs r where s: "st E pid work_dir callback t = (t', evs, r)"
    by (cases "st E pid work_dir callback t")
  from assms [OF s] show "worded_events (fst (snd (st E pid work_dir callback t))) \<and>
      (\<forall>e. snd (snd (st E pid work_dir callback t)) = Some e \<longrightarrow> str_exc e \<noteq> [])"
    by (simp add: s)
qed

lemma worded_stageD:
  assumes "worded_stage st" and s: "st E pid work_dir callback t = (t', evs, r)"
  shows "worded_events evs" and "r = Some e \<Longrightarrow> str_exc e \<noteq> []"
proof -
  from assms(1) have a: "worded_events (fst (snd (st E pid work_dir callback t))) \<and>
      (\<forall>e. snd (snd (st E pid work_dir callback t)) = Some e \<longrightarrow> str_exc e \<noteq> [])"
    unfolding worded_stage_def by blast
  from a show "worded_events evs" by (simp add: s)
  from a show "r = Some e \<Longrightarrow> str_exc e \<noteq> []" by (simp add: s)
qed

lemma worded_collect: "worded_stage collect_project_files"
proof (rule worded_stageI)
  fix E pid work_dir callback t t' evs r
  define B where "B = (\<lambda>(rel, data) t. Inr (t(work_dir @ rel \<mapsto> data)) :: exc + tree)"
  define M where "M = (\<lambda>(rel, data :: string). ''Copied '' @ str_path rel)"
  assume "collect_project_files E pid work_dir callback t = (t', evs, r)"
  then have c: "files_loop B ''collect'' M callback (total_of (project_files E)) 1 (project_files E) t =
      (t', evs, r)"
    by (simp add: collect_project_files_def Let_def B_def M_def)
  have m: "M f \<noteq> []" for f by (cases f) (simp add: M_def)
  have b: "B f t0 \<noteq> Inl e" for f t0 e by (cases f) (simp add: B_def)
  from files_loop_worded [of M, OF m c] have "worded_events evs" .
  moreover have "r = Some e \<Longrightarrow> str_exc e \<noteq> []" for e
    using files_loop_error [of B "''collect''" M callback _ 1 "project_files E" t t' evs e] c b
    by blast
  ultimately show "worded_events evs \<and> (\<forall>e. r = Some e \<longrightarrow> str_exc e \<noteq> [])" by blast
qed

lemma worded_convert: "worded_stage convert_dds_assets"
proof (rule worded_stageI)
  fix E pid work_dir callback t t' evs r
  assume a: "convert_dds_assets E pid work_dir callback t = (t', evs, r)"
  show "worded_events evs \<and> (\<forall>e. r = Some e \<longrightarrow> str_exc e \<noteq> [])"
  proof (cases "dds_files E")
    case None
    with a show ?thesis by (auto simp add: convert_dds_assets_def worded_events_def)
  next
    case (Some files)
    define B where "B = (\<lambda>(name, data) t.
        let out_name = path_stem name @ ''.dds'';
            target = (work_dir @ [''gfx'']) @ [out_name]
        in convert_to_dds E ((DDS_ROOT @ [pid]) @ [name]) data target t)"
    define M where "M = (\<lambda>(name, data :: string). ''Processed '' @ name)"
    from a have c: "files_loop B ''dds'' M callback (total_of files) 1 files t = (t', evs, r)"
      by (simp add: convert_dds_assets_def Let_def Some B_def M_def)
    have m: "M f \<noteq> []" for f by (cases f) (simp add: M_def)
    have b: "B f t0 = Inl e \<Longrightarrow> str_exc e \<noteq> []" for f t0 e
      by (cases f) (auto simp add: B_def Let_def dest: convert_to_dds_worded)
    from files_loop_worded [of M, OF m c] have "worded_events evs" .
    moreover have "r = Some e \<Longrightarrow> str_exc e \<noteq> []" for e
      using files_loop_error [of B "''dds''" M callback _ 1 files t t' evs e] c b
      by blast
    ultimately show ?thesis by blast
  qed
qed

lemma worded_audio: "worded_stage package_audio_tracks"
proof (rule worded_stageI)
  fix E pid work_dir callback t t' evs r
  assume a: "package_audio_tracks E pid work_dir callback t = (t', evs, r)"
  show "worded_events evs \<and> (\<forall>e. r = Some e \<longrightarrow> str_exc e \<noteq> [])"
  proof (cases "audio_files E")
    case None
    with a show ?thesis by (auto simp add: package_audio_tracks_def worded_events_def)
  next
    case (Some files)
    define B where "B = package_audio_file E files (work_dir @ [''sound''])"
    define M where "M = (\<lambda>(name, data :: string). ''Packaged '' @ name)"
    from a have c: "files_loop B ''audio'' M callback (total_of files) 1 files t = (t', evs, r)"
      by (simp add: package_audio_tracks_def Let_def Some B_def M_def)
    have m: "M f \<noteq> []" for f by (cases f) (simp add: M_def)
    have b: "B f t0 = Inl e \<Longrightarrow> str_exc e \<noteq> []" for f t0 e
      by (cases f) (auto simp add: B_def package_audio_file_def validate_audio_def Let_def
          split: if_splits)
    from files_loop_worded [of M, OF m c] have "worded_events evs" .
    moreover have "r = Some e \<Longrightarrow> str_exc e \<noteq> []" for e
      using files_loop_error [of B "''audio''" M callback _ 1 files t t' evs e] c b
      by blast
    ultimately show ?thesis by blast
  qed
qed

lemma worded_descriptor: "worded_stage write_descriptor"
  by (rule worded_stageI) (auto simp add: write_descriptor_def Let_def worded_events_def)

lemma worded_steps: "list_all (\<lambda>(step_name, st). worded_stage st) steps"
  by (simp add: steps_def worded_collect worded_convert worded_audio worded_descriptor)

lemma stages_raw_worded:
  "list_all (\<lambda>(step_name, st). worded_stage st) sts \<Longrightarrow>
   stages_raw E pid work_dir sts t = (outs, t', r) \<Longrightarrow>
   list_all (\<lambda>(step_name, evs). worded_events evs) outs \<and> (\<forall>e. r = Some e \<longrightarrow> str_exc e \<noteq> [])"
proof (induction sts arbitrary: t outs t' r)
  case Nil
  then show ?case by simp
next
  case (Cons a sts)
  obtain step_name st where a: "a = (step_name, st)" by (cases a)
  obtain t1 evs r1 where st: "st E pid work_dir True t = (t1, evs, r1)"
    by (cases "st E pid work_dir True t")
  from Cons.prems(1) have w: "worded_stage st"
    and rest: "list_all (\<lambda>(step_name, st). worded_stage st) sts"
    by (simp_all add: a)
  note d = worded_stageD [OF w st]
  show ?case
  proof (cases r1)
    case None
    obtain outs2 t2 r2 where raw: "stages_raw E pid work_dir sts t1 = (outs2, t2, r2)"
      by (cases "stages_raw E pid work_dir sts t1")
    from Cons.IH [OF rest raw] d(1) Cons.prems(2) show ?thesis
      by (auto simp add: a st None raw)
  next
    case (Some e')
    with d Cons.prems(2) show ?thesis by (auto simp add: a st)
  qed
qed

lemma stage_reports_worded:
  "worded_events evs \<Longrightarrow> worded_events (stage_reports s (i, step_name, evs))"
  by (auto simp add: worded_events_def stage_reports_def list_all_iff)

lemma reports_worded:
  "list_all (\<lambda>(step_name, evs). worded_events evs) outs \<Longrightarrow>
   worded_events (concat (map (stage_reports s) (enumerate i outs)))"
proof (induction outs arbitrary: i)
  case Nil
  show ?case by (simp add: worded_events_def)
next
  case (Cons a outs)
  obtain step_name evs where a: "a = (step_name, evs)" by (cases a)
  from Cons.prems have "worded_events evs"
    and "list_all (\<lambda>(step_name, evs). worded_events evs) outs"
    by (simp_all add: a)
  with Cons.IH [of "Suc i"] stage_reports_worded [of evs s i step_name] show ?case
    by (simp add: a worded_events_def)
qed

lemma build_with_outcome:
  assumes w: "list_all (\<lambda>(step_name, st). worded_stage st) sts"
    and b: "build_with sts E pid True = (tr, res)"
  shows "(case res of
            Inl e \<Rightarrow> str_exc e \<noteq> [] \<and> (\<exists>evs. worded_events evs \<and> tr = map progress_of evs)
          | Inr p \<Rightarrow>
              (\<exists>evs t. worded_events evs \<and>
                 tr = map progress_of evs @ [Archived p t, Progress ''archive'' 1 ''Build complete'']))"
proof -
  obtain outs t r where raw: "stages_raw E pid (tmp_dir E @ [''mod'']) sts Map.empty = (outs, t, r)"
    by (cases "stages_raw E pid (tmp_dir E @ [''mod'']) sts Map.empty")
  let ?evs = "concat (map (stage_reports (1 / of_nat (length sts + 1))) (enumerate 1 outs))"
  let ?mid = "(''archive'', of_nat (length sts) * (1 / of_nat (length sts + 1)), ''Creating archive'')"
  from stages_raw_worded [OF w raw]
  have wo: "list_all (\<lambda>(step_name, evs). worded_events evs) outs"
    and we: "\<And>e. r = Some e \<Longrightarrow> str_exc e \<noteq> []"
    by simp_all
  from reports_worded [OF wo] have w1: "worded_events ?evs" .
  then have w2: "worded_events (?evs @ [?mid])" by (simp add: worded_events_def)
  show ?thesis
  proof (cases r)
    case (Some e)
    with we have "str_exc e \<noteq> []" by blast
    moreover have tr: "tr = map progress_of ?evs" and res: "res = Inl e"
      using b unfolding build_with_raw raw Some by (simp_all add: Let_def)
    moreover have "\<exists>evs. worded_events evs \<and> tr = map progress_of evs"
      using w1 tr by blast
    ultimately show ?thesis by simp
  next
    case None
    show ?thesis
    proof (cases "archive_build E pid")
      case (Inl e)
      then have "str_exc e \<noteq> []"
        by (auto simp add: archive_build_def split: option.splits)
      moreover have tr: "tr = map progress_of (?evs @ [?mid])" and res: "res = Inl e"
        using b unfolding build_with_raw raw None Inl by (simp_all add: Let_def progress_of_def)
      moreover have "\<exists>evs. worded_events evs \<and> tr = map progress_of evs"
        using w2 tr by blast
      ultimately show ?thesis by simp
    next
      case (Inr p)
      have tr: "tr = map progress_of (?evs @ [?mid]) @
          [Archived p t, Progress ''archive'' 1 ''Build complete'']" and res: "res = Inr p"
        using b unfolding build_with_raw raw None Inr by (simp_all add: Let_def progress_of_def)
      have "\<exists>evs t'. worded_events evs \<and>
          tr = map progress_of evs @ [Archived p t', Progress ''archive'' 1 ''Build complete'']"
        using w2 tr by blast
      then show ?thesis by (simp add: res)
    qed
  qed
qed

subsection \<open>The writes of a job thread\<close>

lemma apply_write_time:
  "status (apply_write now w job) = status (apply_write 0 w job)"
  "progress (apply_write now w job) = progress (apply_write 0 w job)"
  "message (apply_write now w job) = message (apply_write 0 w job)"
  "artifact_path (apply_write now w job) = artifact_path (apply_write 0 w job)"
  by (cases w; simp)+

lemma apply_write_cong:
  assumes "status job' = status job" "progress job' = progress job"
    "message job' = message job" "artifact_path job' = artifact_path job"
  shows "status (apply_write now' w job') = status (apply_write now w job)"
    "progress (apply_write now' w job') = progress (apply_write now w job)"
    "message (apply_write now' w job') = message (apply_write now w job)"
    "artifact_path (apply_write now' w job') = artifact_path (apply_write now w job)"
  using assms by (cases w; simp)+

lemma job_id_apply_write: "job_id (apply_write now w job) = job_id job"
  by (cases w) simp_all

lemma run_ok_cong:
  "status job' = status job \<Longrightarrow> progress job' = progress job \<Longrightarrow>
   message job' = message job \<Longrightarrow> artifact_path job' = artifact_path job \<Longrightarrow>
   run_ok D job' acts = run_ok D job acts"
proof (induction acts arbitrary: D job job')
  case Nil
  then show ?case by (simp add: terminal_def job_ok_def)
next
  case (Cons a acts)
  have s: "sound_job job' = sound_job job" and t: "terminal job' = terminal job"
    using Cons.prems by (simp_all add: sound_job_def terminal_def)
  show ?case
  proof (cases a)
    case (Write w)
    note c = apply_write_cong [OF Cons.prems, of 0 w 0]
    have k: "keeps w job' = keeps w job"
      using c Cons.prems by (simp add: keeps_def)
    from Cons.IH [OF c] show ?thesis by (simp add: Write s t k)
  next
    case (CreateFile p t')
    have e: "run_ok (D(p \<mapsto> t')) job' acts = run_ok (D(p \<mapsto> t')) job acts"
      by (rule Cons.IH [OF Cons.prems])
    show ?thesis unfolding CreateFile run_ok.simps s e ..
  qed
qed

lemma run_ok_time: "run_ok D (apply_write now w job) acts = run_ok D (apply_write 0 w job) acts"
  by (rule run_ok_cong) (rule apply_write_time)+

lemma job_ok_sound: "job_ok D job \<Longrightarrow> sound_job job"
  by (auto simp add: job_ok_def sound_job_def split: if_splits)

lemma live_sound: "live_job job \<Longrightarrow> sound_job job"
  by (simp add: live_job_def sound_job_def)

lemma run_ok_sound: "run_ok D job acts \<Longrightarrow> sound_job job"
proof (cases acts)
  case Nil
  assume "run_ok D job acts"
  with Nil show ?thesis by (auto intro: job_ok_sound)
next
  case (Cons a rest)
  assume "run_ok D job acts"
  with Cons show ?thesis by (cases a) simp_all
qed

lemma job_ok_mono: "job_ok D job \<Longrightarrow> dom D \<subseteq> dom D' \<Longrightarrow> job_ok D' job"
  by (auto simp add: job_ok_def split: option.splits if_splits)

lemma run_ok_mono:
  "run_ok D job acts \<Longrightarrow> dom D \<subseteq> dom D' \<Longrightarrow> run_ok D' job acts"
proof (induction acts arbitrary: D D' job)
  case Nil
  then show ?case by (auto intro: job_ok_mono)
next
  case (Cons a acts)
  show ?case
  proof (cases a)
    case (Write w)
    from Cons.prems(1) have "run_ok D (apply_write 0 w job) acts" by (simp add: Write)
    from Cons.IH [OF this Cons.prems(2)] Cons.prems(1) show ?thesis by (simp add: Write)
  next
    case (CreateFile p t)
    from Cons.prems(2) have d: "dom (D(p \<mapsto> t)) \<subseteq> dom (D'(p \<mapsto> t))" by auto
    from Cons.prems(1) have sj: "sound_job job" and r: "run_ok (D(p \<mapsto> t)) job acts"
      by (simp_all add: CreateFile)
    have "run_ok (D'(p \<mapsto> t)) job acts" by (rule Cons.IH [OF r d])
    with sj show ?thesis unfolding CreateFile run_ok.simps by blast
  qed
qed

lemma run_ok_update:
  assumes l: "live_job job" and m: "msg \<noteq> []"
    and rest: "\<And>job'. live_job job' \<Longrightarrow> run_ok D job' acts"
  shows "run_ok D job (map Write (update l x msg) @ acts)"
proof -
  let ?job = "job\<lparr>status := ''running'', progress := x, message := msg, updated_at := 0\<rparr>"
  from l m have "live_job ?job" by (simp add: live_job_def terminal_def)
  from rest [OF this] l m show ?thesis
    by (simp add: update_def live_job_def sound_job_def terminal_def)
qed

lemma run_ok_events:
  "worded_events evs \<Longrightarrow> live_job job \<Longrightarrow>
   (\<And>job'. live_job job' \<Longrightarrow> run_ok D job' acts) \<Longrightarrow>
   run_ok D job (concat (map actions_of (map progress_of evs)) @ acts)"
proof (induction evs arbitrary: job)
  case Nil
  then show ?case by simp
next
  case (Cons ev evs)
  obtain l x msg where ev: "ev = (l, x, msg)" by (cases ev)
  from Cons.prems(1) have m: "msg \<noteq> []" and w: "worded_events evs"
    by (simp_all add: ev worded_events_def)
  have "run_ok D job (map Write (update l x msg) @
      (concat (map actions_of (map progress_of evs)) @ acts))"
    using Cons.prems(2) m
  proof (rule run_ok_update)
    fix job' assume "live_job job'"
    from Cons.IH [OF w this Cons.prems(3)]
    show "run_ok D job' (concat (map actions_of (map progress_of evs)) @ acts)" .
  qed
  then show ?case by (simp add: ev progress_of_def)
qed

lemma run_ok_failed:
  "live_job job \<Longrightarrow> msg \<noteq> [] \<Longrightarrow> run_ok D job (map Write (mark_failed msg))"
  by (simp add: mark_failed_def live_job_def sound_job_def terminal_def job_ok_def keeps_def)

lemma run_ok_completed:
  "live_job job \<Longrightarrow> msg \<noteq> [] \<Longrightarrow>
   run_ok D job (CreateFile p t # map Write (update l 1 msg) @ map Write (mark_completed p))"
  by (simp add: mark_completed_def update_def live_job_def sound_job_def terminal_def job_ok_def
      keeps_def)

lemma run_ok_run_job:
  assumes l: "live_job job"
  shows "run_ok D job (run_job_actions E pid)"
proof -
  obtain tr res where b: "build_mod E pid True = (tr, res)"
    by (cases "build_mod E pid True")
  then have bw: "build_with steps E pid True = (tr, res)"
    by (simp add: build_mod_def)
  let ?tail = "case res of
      Inr archive_path \<Rightarrow> concat (map actions_of tr) @ map Write (mark_completed archive_path)
    | Inl e \<Rightarrow> concat (map actions_of tr) @ map Write (mark_failed (str_exc e))"
  have r: "run_job_actions E pid =
      Write (SetStatus ''running'') # Write (SetMessage ''Starting build'') # ?tail"
    by (cases res) (simp_all add: run_job_actions_def b)
  let ?job = "job\<lparr>status := ''running'', message := ''Starting build''\<rparr>"
  from l have l2: "live_job ?job" by (simp add: live_job_def terminal_def)
  have t: "run_ok D job' ?tail" if l': "live_job job'" for job'
  proof (cases res)
    case (Inl e)
    with build_with_outcome [OF worded_steps bw]
    obtain evs where e: "str_exc e \<noteq> []" and w: "worded_events evs" and tr: "tr = map progress_of evs"
      by auto
    have "run_ok D job' (concat (map actions_of (map progress_of evs)) @
        map Write (mark_failed (str_exc e)))"
      using w l'
    proof (rule run_ok_events)
      fix job'' assume "live_job job''"
      then show "run_ok D job'' (map Write (mark_failed (str_exc e)))"
        using e by (rule run_ok_failed)
    qed
    then show ?thesis by (simp add: Inl tr)
  next
    case (Inr p)
    with build_with_outcome [OF worded_steps bw]
    obtain evs t where w: "worded_events evs"
      and tr: "tr = map progress_of evs @ [Archived p t, Progress ''archive'' 1 ''Build complete'']"
      by auto
    have "run_ok D job' (concat (map actions_of (map progress_of evs)) @
        (CreateFile p t # map Write (update ''archive'' 1 ''Build complete'') @
         map Write (mark_completed p)))"
      using w l'
    proof (rule run_ok_events)
      fix job'' assume "live_job job''"
      then show "run_ok D job'' (CreateFile p t # map Write (update ''archive'' 1 ''Build complete'') @
         map Write (mark_completed p))"
        by (rule run_ok_completed) simp
    qed
    then show ?thesis by (simp add: Inr tr)
  qed
  from t [OF l2] l show ?thesis
    unfolding r by (simp add: live_job_def sound_job_def terminal_def)
qed

subsection \<open>The invariant of the manager\<close>

lemma thread_ok_same:
  assumes "jobs m' jid = jobs m jid" "disk m' = disk m"
    and "\<And>r. jobs m jid = Some r \<Longrightarrow> heap m' r = heap m r"
  shows "thread_ok m' jid th = thread_ok m jid th"
  using assms by (auto simp add: thread_ok_def split: thread.splits option.splits)

lemma thread_ok_disk:
  assumes "jobs m' = jobs m" "heap m' = heap m" "dom (disk m) \<subseteq> dom (disk m')"
    and "thread_ok m jid th"
  shows "thread_ok m' jid th"
  using assms
  by (auto simp add: thread_ok_def split: thread.splits option.splits
      intro: run_ok_mono job_ok_mono)

lemma inv_heapD:
  "manager_inv m \<Longrightarrow> heap m r = Some job \<Longrightarrow>
   r < next_ref m \<and> jobs m (job_id job) = Some r \<and> threads m (job_id job) \<noteq> None"
  by (simp add: manager_inv_def)

lemma inv_jobsD:
  "manager_inv m \<Longrightarrow> jobs m jid = Some r \<Longrightarrow> \<exists>job. heap m r = Some job \<and> job_id job = jid"
  by (simp add: manager_inv_def)

lemma inv_threadD: "manager_inv m \<Longrightarrow> threads m jid = Some th \<Longrightarrow> thread_ok m jid th"
  by (simp add: manager_inv_def)

lemma inv_I:
  assumes "\<And>r job. heap m r = Some job \<Longrightarrow>
      r < next_ref m \<and> jobs m (job_id job) = Some r \<and> threads m (job_id job) \<noteq> None"
    and "\<And>jid r. jobs m jid = Some r \<Longrightarrow> \<exists>job. heap m r = Some job \<and> job_id job = jid"
    and "\<And>jid th. threads m jid = Some th \<Longrightarrow> thread_ok m jid th"
  shows "manager_inv m"
  using assms unfolding manager_inv_def by blast

lemma inv_threadE:
  assumes i: "manager_inv m" and th: "threads m jid = Some th"
  obtains r job where "jobs m jid = Some r" "heap m r = Some job" "job_id job = jid"
proof -
  from inv_threadD [OF i th] obtain r where jr: "jobs m jid = Some r"
    by (auto simp add: thread_ok_def split: option.splits)
  from inv_jobsD [OF i jr] obtain job where "heap m r = Some job" "job_id job = jid" by blast
  with jr that show ?thesis by blast
qed

lemma inv_empty: "manager_inv empty_manager"
  by (simp add: manager_inv_def empty_manager_def)

lemma inv_start:
  assumes i: "manager_inv m" and f: "jid \<notin> dom (jobs m)"
  shows "manager_inv (snd (start_build pid jid E now m))"
proof -
  define r0 where "r0 = next_ref m"
  define m' where "m' = snd (start_build pid jid E now m)"
  have h: "heap m' = (heap m)(r0 \<mapsto> new_job jid pid now)"
    and j: "jobs m' = (jobs m)(jid \<mapsto> r0)"
    and t: "threads m' = (threads m)(jid \<mapsto> Spawned E)"
    and d: "disk m' = disk m" and n: "next_ref m' = Suc r0"
    by (simp_all add: m'_def start_build_def Let_def r0_def)
  have fresh: "heap m r0 = None"
  proof (cases "heap m r0")
    case (Some job)
    from inv_heapD [OF i Some] show ?thesis by (simp add: r0_def)
  qed simp
  have "manager_inv m'"
  proof (rule inv_I)
    fix r job assume a: "heap m' r = Some job"
    show "r < next_ref m' \<and> jobs m' (job_id job) = Some r \<and> threads m' (job_id job) \<noteq> None"
    proof (cases "r = r0")
      case True
      with a h have "job = new_job jid pid now" by simp
      then show ?thesis by (simp add: True n j t new_job_def)
    next
      case False
      with a h have o: "heap m r = Some job" by simp
      from inv_heapD [OF i o] have k: "r < next_ref m" "jobs m (job_id job) = Some r"
        "threads m (job_id job) \<noteq> None"
        by simp_all
      from k(2) f have "job_id job \<noteq> jid" by auto
      with k show ?thesis by (simp add: n j t r0_def)
    qed
  next
    fix jid' r assume a: "jobs m' jid' = Some r"
    show "\<exists>job. heap m' r = Some job \<and> job_id job = jid'"
    proof (cases "jid' = jid")
      case True
      with a j have "r = r0" by simp
      then show ?thesis by (simp add: h True new_job_def)
    next
      case False
      with a j have o: "jobs m jid' = Some r" by simp
      from inv_jobsD [OF i o] obtain job where k: "heap m r = Some job" "job_id job = jid'" by blast
      with fresh have "r \<noteq> r0" by auto
      with k show ?thesis by (simp add: h)
    qed
  next
    fix jid' th assume a: "threads m' jid' = Some th"
    show "thread_ok m' jid' th"
    proof (cases "jid' = jid")
      case True
      with a t have "th = Spawned E" by simp
      then show ?thesis
        by (simp add: thread_ok_def True j h new_job_def live_job_def terminal_def)
    next
      case False
      with a t have o: "threads m jid' = Some th" by simp
      have "thread_ok m' jid' th = thread_ok m jid' th"
      proof (rule thread_ok_same)
        show "jobs m' jid' = jobs m jid'" using False by (simp add: j)
        show "disk m' = disk m" by (rule d)
        fix r assume "jobs m jid' = Some r"
        from inv_jobsD [OF i this] fresh have "r \<noteq> r0" by auto
        then show "heap m' r = heap m r" by (simp add: h)
      qed
      with inv_threadD [OF i o] show ?thesis by simp
    qed
  qed
  then show ?thesis by (simp add: m'_def)
qed

lemma inv_threads_only:
  assumes i: "manager_inv m" and ok: "thread_ok m jid th"
  shows "manager_inv (m\<lparr>threads := (threads m)(jid \<mapsto> th)\<rparr>)"
proof (rule inv_I)
  let ?m = "m\<lparr>threads := (threads m)(jid \<mapsto> th)\<rparr>"
  fix r job assume "heap ?m r = Some job"
  then show "r < next_ref ?m \<and> jobs ?m (job_id job) = Some r \<and> threads ?m (job_id job) \<noteq> None"
    using inv_heapD [OF i, of r job] by simp
next
  let ?m = "m\<lparr>threads := (threads m)(jid \<mapsto> th)\<rparr>"
  fix jid' r assume "jobs ?m jid' = Some r"
  then show "\<exists>job. heap ?m r = Some job \<and> job_id job = jid'"
    using inv_jobsD [OF i, of jid' r] by simp
next
  let ?m = "m\<lparr>threads := (threads m)(jid \<mapsto> th)\<rparr>"
  have same: "thread_ok ?m jid' th' = thread_ok m jid' th'" for jid' th'
    by (rule thread_ok_same) simp_all
  fix jid' th' assume a: "threads ?m jid' = Some th'"
  show "thread_ok ?m jid' th'"
  proof (cases "jid' = jid")
    case True
    with a have "th' = th" by simp
    with ok True show ?thesis by (simp add: same)
  next
    case False
    with a have "threads m jid' = Some th'" by simp
    from inv_threadD [OF i this] show ?thesis by (simp add: same)
  qed
qed

lemma inv_write:
  assumes i: "manager_inv m" and th: "threads m jid = Some (Running r (Write w # acts))"
    and hp: "heap m r = Some job"
  shows "manager_inv (m\<lparr>heap := (heap m)(r \<mapsto> apply_write now w job),
                          threads := (threads m)(jid \<mapsto> Running r acts)\<rparr>)"
proof -
  let ?job = "apply_write now w job"
  define m' where "m' = m\<lparr>heap := (heap m)(r \<mapsto> ?job), threads := (threads m)(jid \<mapsto> Running r acts)\<rparr>"
  have h: "heap m' = (heap m)(r \<mapsto> ?job)" and j: "jobs m' = jobs m"
    and t: "threads m' = (threads m)(jid \<mapsto> Running r acts)"
    and d: "disk m' = disk m" and n: "next_ref m' = next_ref m"
    by (simp_all add: m'_def)
  from inv_threadD [OF i th] hp
  have jr: "jobs m jid = Some r" and po: "run_ok (disk m) job (Write w # acts)"
    by (auto simp add: thread_ok_def split: option.splits)
  from po have rest: "run_ok (disk m) ?job acts"
    by (simp add: run_ok_time [of _ now])
  from inv_heapD [OF i hp] have k: "r < next_ref m" "jobs m (job_id job) = Some r"
    "threads m (job_id job) \<noteq> None"
    by simp_all
  from inv_jobsD [OF i jr] hp have idj: "job_id job = jid" by simp
  have "manager_inv m'"
  proof (rule inv_I)
    fix r' job' assume a: "heap m' r' = Some job'"
    show "r' < next_ref m' \<and> jobs m' (job_id job') = Some r' \<and> threads m' (job_id job') \<noteq> None"
    proof (cases "r' = r")
      case True
      with a h have "job' = ?job" by simp
      with k show ?thesis by (simp add: True n j t job_id_apply_write)
    next
      case False
      with a h have "heap m r' = Some job'" by simp
      from inv_heapD [OF i this] show ?thesis by (simp add: n j t)
    qed
  next
    fix jid' r' assume a: "jobs m' jid' = Some r'"
    then have o: "jobs m jid' = Some r'" by (simp add: j)
    from inv_jobsD [OF i o] obtain job' where q: "heap m r' = Some job'" "job_id job' = jid'" by blast
    show "\<exists>job. heap m' r' = Some job \<and> job_id job = jid'"
    proof (cases "r' = r")
      case True
      with q hp have "job_id job = jid'" by simp
      then show ?thesis by (simp add: h True job_id_apply_write)
    next
      case False
      with q show ?thesis by (simp add: h)
    qed
  next
    fix jid' th' assume a: "threads m' jid' = Some th'"
    show "thread_ok m' jid' th'"
    proof (cases "jid' = jid")
      case True
      with a t have "th' = Running r acts" by simp
      with rest jr show ?thesis by (simp add: thread_ok_def True j h d)
    next
      case False
      with a t have o: "threads m jid' = Some th'" by simp
      have "thread_ok m' jid' th' = thread_ok m jid' th'"
      proof (rule thread_ok_same)
        show "jobs m' jid' = jobs m jid'" by (simp add: j)
        show "disk m' = disk m" by (rule d)
        fix r' assume b: "jobs m jid' = Some r'"
        from inv_jobsD [OF i b] obtain job' where "heap m r' = Some job'" "job_id job' = jid'" by blast
        with hp idj False have "r' \<noteq> r" by auto
        then show "heap m' r' = heap m r'" by (simp add: h)
      qed
      with inv_threadD [OF i o] show ?thesis by simp
    qed
  qed
  then show ?thesis by (simp add: m'_def)
qed

lemma inv_create_file:
  assumes i: "manager_inv m" and th: "threads m jid = Some (Running r (CreateFile p t # acts))"
  shows "manager_inv (m\<lparr>disk := (disk m)(p \<mapsto> t), threads := (threads m)(jid \<mapsto> Running r acts)\<rparr>)"
proof -
  define m' where "m' = m\<lparr>disk := (disk m)(p \<mapsto> t), threads := (threads m)(jid \<mapsto> Running r acts)\<rparr>"
  have h: "heap m' = heap m" and j: "jobs m' = jobs m"
    and t: "threads m' = (threads m)(jid \<mapsto> Running r acts)"
    and d: "disk m' = (disk m)(p \<mapsto> t)" and n: "next_ref m' = next_ref m"
    by (simp_all add: m'_def)
  have sub: "dom (disk m) \<subseteq> dom (disk m')" by (auto simp add: d)
  from inv_threadD [OF i th]
  have jr: "jobs m jid = Some r"
    by (auto simp add: thread_ok_def split: option.splits)
  from inv_jobsD [OF i jr] obtain job where hp: "heap m r = Some job" by blast
  from inv_threadD [OF i th] hp jr
  have po: "run_ok ((disk m)(p \<mapsto> t)) job acts"
    by (simp add: thread_ok_def)
  have "manager_inv m'"
  proof (rule inv_I)
    fix r' job' assume a: "heap m' r' = Some job'"
    then have "heap m r' = Some job'" by (simp add: h)
    from inv_heapD [OF i this] show
      "r' < next_ref m' \<and> jobs m' (job_id job') = Some r' \<and> threads m' (job_id job') \<noteq> None"
      by (simp add: n j t)
  next
    fix jid' r' assume "jobs m' jid' = Some r'"
    then have "jobs m jid' = Some r'" by (simp add: j)
    from inv_jobsD [OF i this] show "\<exists>job. heap m' r' = Some job \<and> job_id job = jid'"
      by (simp add: h)
  next
    fix jid' th' assume a: "threads m' jid' = Some th'"
    show "thread_ok m' jid' th'"
    proof (cases "jid' = jid")
      case True
      with a t have "th' = Running r acts" by simp
      with jr hp po show ?thesis by (simp add: thread_ok_def True j h d)
    next
      case False
      with a t have o: "threads m jid' = Some th'" by simp
      from inv_threadD [OF i o] show ?thesis
        by (rule thread_ok_disk [OF j h sub])
    qed
  qed
  then show ?thesis by (simp add: m'_def)
qed

subsection \<open>Steps of the manager\<close>

lemma inv_thread_step:
  assumes i: "manager_inv m" and s: "thread_step jid now m = Some m'"
  shows "manager_inv m'"
proof (cases "threads m jid")
  case None
  with s show ?thesis by (simp add: thread_step_def)
next
  case (Some th)
  note ok = inv_threadD [OF i Some]
  from inv_threadE [OF i Some] obtain r job where jr: "jobs m jid = Some r"
    and hp: "heap m r = Some job" and idj: "job_id job = jid"
    by blast
  show ?thesis
  proof (cases th)
    case Finished
    with s Some show ?thesis by (simp add: thread_step_def)
  next
    case (Spawned E)
    with ok jr hp have l: "live_job job" by (simp add: thread_ok_def)
    from s have m': "m' = m\<lparr>threads := (threads m)(jid \<mapsto> Running r (run_job_actions E (project_id job)))\<rparr>"
      by (simp add: thread_step_def Some Spawned get_job_def jr hp)
    have "thread_ok m jid (Running r (run_job_actions E (project_id job)))"
      by (simp add: thread_ok_def jr hp run_ok_run_job [OF l])
    from inv_threads_only [OF i this] show ?thesis by (simp add: m')
  next
    case (Running r' acts)
    with ok jr hp have rr: "r' = r" and po: "run_ok (disk m) job acts"
      by (simp_all add: thread_ok_def)
    show ?thesis
    proof (cases acts)
      case Nil
      from po have "terminal job \<and> job_ok (disk m) job" by (simp add: Nil)
      then have "thread_ok m jid Finished"
        by (simp add: thread_ok_def jr hp)
      from inv_threads_only [OF i this] s show ?thesis
        by (simp add: thread_step_def Some Running Nil)
    next
      case (Cons a rest)
      show ?thesis
      proof (cases a)
        case (Write w)
        from s have "m' = m\<lparr>heap := (heap m)(r \<mapsto> apply_write now w job),
                          threads := (threads m)(jid \<mapsto> Running r rest)\<rparr>"
          by (simp add: thread_step_def Some Running Cons Write hp rr)
        with inv_write [OF i _ hp, where jid = jid and w = w and acts = rest and now = now] Some show ?thesis
          by (simp add: Running Cons Write rr)
      next
        case (CreateFile p t)
        from s have "m' = m\<lparr>disk := (disk m)(p \<mapsto> t), threads := (threads m)(jid \<mapsto> Running r rest)\<rparr>"
          by (simp add: thread_step_def Some Running Cons CreateFile rr)
        with inv_create_file [OF i, where jid = jid and r = r and p = p and t = t and acts = rest] Some show ?thesis
          by (simp add: Running Cons CreateFile rr)
      qed
    qed
  qed
qed

lemma inv_step:
  assumes "manager_inv m" and "step op m = Some m'"
  shows "manager_inv m'"
proof (cases op)
  case (StartBuild pid jid E now)
  with assms(2) have "jid \<notin> dom (jobs m)" and "m' = snd (start_build pid jid E now m)"
    by (auto split: if_splits)
  with inv_start [OF assms(1)] show ?thesis by simp
next
  case (ThreadStep jid now)
  with assms inv_thread_step show ?thesis by simp
qed

lemma inv_exec:
  "manager_inv m \<Longrightarrow> exec ops m = Some m' \<Longrightarrow> manager_inv m'"
proof (induction ops arbitrary: m)
  case Nil
  then show ?case by simp
next
  case (Cons op ops)
  from Cons.prems(2) obtain m1 where s: "step op m = Some m1" and e: "exec ops m1 = Some m'"
    by (auto split: option.splits)
  from Cons.IH [OF inv_step [OF Cons.prems(1) s] e] show ?case .
qed

lemma exec_append:
  "exec (ops @ ops') m = (case exec ops m of None \<Rightarrow> None | Some m' \<Rightarrow> exec ops' m')"
  by (induction ops arbitrary: m) (simp_all split: option.split)

lemma inv_heap_sound:
  assumes i: "manager_inv m" and hp: "heap m r = Some job"
  shows "sound_job job"
proof -
  from inv_heapD [OF i hp] obtain th where jr: "jobs m (job_id job) = Some r"
    and th: "threads m (job_id job) = Some th"
    by auto
  from inv_threadD [OF i th] jr hp show ?thesis
    by (cases th) (auto simp add: thread_ok_def intro: live_sound run_ok_sound job_ok_sound)
qed

lemma inv_done:
  assumes i: "manager_inv m" and hp: "heap m r = Some job" and dn: "thread_done m (job_id job)"
  shows "terminal job \<and> job_ok (disk m) job"
proof -
  from inv_heapD [OF i hp] obtain th where jr: "jobs m (job_id job) = Some r"
    and th: "threads m (job_id job) = Some th"
    by auto
  from dn th have "th = Finished \<or> (\<exists>r'. th = Running r' [])"
    by (auto simp add: thread_done_def split: thread.splits list.splits)
  with inv_threadD [OF i th] jr hp show ?thesis
    by (auto simp add: thread_ok_def)
qed

text \<open>A write of another job's thread goes to another object.\<close>

lemma other_thread_other_object:
  assumes i: "manager_inv m" and hp: "heap m r = Some job"
    and th: "threads m jid = Some (Running r' acts)" and ne: "jid \<noteq> job_id job"
  shows "r' \<noteq> r"
proof
  assume "r' = r"
  with inv_threadD [OF i th] have "jobs m jid = Some r"
    by (auto simp add: thread_ok_def split: option.splits)
  from inv_jobsD [OF i this] hp ne show False by simp
qed

lemma own_thread_own_object:
  assumes i: "manager_inv m" and hp: "heap m r = Some job"
    and th: "threads m (job_id job) = Some (Running r' acts)"
  shows "r' = r \<and> run_ok (disk m) job acts"
proof -
  from inv_heapD [OF i hp] have "jobs m (job_id job) = Some r" by simp
  with inv_threadD [OF i th] hp show ?thesis by (simp add: thread_ok_def)
qed

subsection \<open>Terminal jobs\<close>

lemma terminal_kept_by_thread_step:
  assumes i: "manager_inv m" and hp: "heap m r = Some job" and tm: "terminal job"
    and s: "thread_step jid now m = Some m'"
  shows "\<exists>job'. heap m' r = Some job' \<and> status job' = status job \<and> progress job' = progress job"
proof (cases "threads m jid")
  case None
  with s show ?thesis by (simp add: thread_step_def)
next
  case (Some th)
  show ?thesis
  proof (cases th)
    case Finished
    with s Some show ?thesis by (simp add: thread_step_def)
  next
    case (Spawned E)
    with s Some hp show ?thesis
      by (auto simp add: thread_step_def split: option.splits)
  next
    case (Running r' acts)
    show ?thesis
    proof (cases acts)
      case Nil
      with s Some Running hp show ?thesis by (auto simp add: thread_step_def)
    next
      case (Cons a rest)
      show ?thesis
      proof (cases a)
        case (CreateFile p t)
        with s Some Running Cons hp show ?thesis by (auto simp add: thread_step_def)
      next
        case (Write w)
        note th = Some [unfolded Running Cons Write]
        show ?thesis
        proof (cases "jid = job_id job")
          case False
          from other_thread_other_object [OF i hp th False] have "r' \<noteq> r" .
          with s th hp show ?thesis
            by (auto simp add: thread_step_def split: option.splits)
        next
          case True
          from own_thread_own_object [OF i hp th [unfolded True]]
          have rr: "r' = r" and po: "run_ok (disk m) job (Write w # rest)" by simp_all
          from po tm have k: "keeps w job" by simp
          from s th hp rr have "heap m' r = Some (apply_write now w job)"
            by (auto simp add: thread_step_def)
          with k show ?thesis
            by (simp add: keeps_def apply_write_time [of now])
        qed
      qed
    qed
  qed
qed

lemma terminal_kept_by_step:
  assumes i: "manager_inv m" and hp: "heap m r = Some job" and tm: "terminal job"
    and s: "step op m = Some m'"
  shows "\<exists>job'. heap m' r = Some job' \<and> status job' = status job \<and> progress job' = progress job"
proof (cases op)
  case (StartBuild pid jid E now)
  from inv_heapD [OF i hp] have "r \<noteq> next_ref m" by simp
  with s hp show ?thesis
    by (auto simp add: StartBuild start_build_def Let_def split: if_splits)
next
  case (ThreadStep jid now)
  with terminal_kept_by_thread_step [OF i hp tm] s show ?thesis by simp
qed

lemma terminal_kept_by_exec:
  "manager_inv m \<Longrightarrow> heap m r = Some job \<Longrightarrow> terminal job \<Longrightarrow> exec ops m = Some m' \<Longrightarrow>
   \<exists>job'. heap m' r = Some job' \<and> status job' = status job \<and> progress job' = progress job"
proof (induction ops arbitrary: m job)
  case Nil
  then show ?case by simp
next
  case (Cons op ops)
  from Cons.prems(4) obtain m1 where s: "step op m = Some m1" and e: "exec ops m1 = Some m'"
    by (auto split: option.splits)
  from terminal_kept_by_step [OF Cons.prems(1) Cons.prems(2) Cons.prems(3) s]
  obtain job1 where h1: "heap m1 r = Some job1" and s1: "status job1 = status job"
    and p1: "progress job1 = progress job"
    by blast
  from Cons.prems(3) s1 have t1: "terminal job1" by (simp add: terminal_def)
  from Cons.IH [OF inv_step [OF Cons.prems(1) s] h1 t1 e] s1 p1 show ?case by simp
qed

subsection \<open>Jobs whose thread has finished\<close>

lemma done_kept_by_thread_step:
  assumes i: "manager_inv m" and hp: "heap m r = Some job" and dn: "thread_done m (job_id job)"
    and s: "thread_step jid now m = Some m'"
  shows "heap m' r = Some job \<and> thread_done m' (job_id job)"
proof (cases "jid = job_id job")
  case True
  from dn have "threads m jid = Some Finished \<or> (\<exists>r'. threads m jid = Some (Running r' []))"
    by (auto simp add: thread_done_def True split: option.splits thread.splits list.splits)
  with s hp show ?thesis
    by (auto simp add: thread_step_def thread_done_def True)
next
  case False
  have h: "heap m' r = Some job"
  proof (cases "threads m jid")
    case None
    with s show ?thesis by (simp add: thread_step_def)
  next
    case (Some th)
    show ?thesis
    proof (cases th)
      case Finished
      with s Some show ?thesis by (simp add: thread_step_def)
    next
      case (Spawned E)
      with s Some hp show ?thesis
        by (auto simp add: thread_step_def split: option.splits)
    next
      case (Running r' acts)
      from other_thread_other_object [OF i hp Some [unfolded Running] False] have "r' \<noteq> r" .
      with s Some Running hp show ?thesis
        by (auto simp add: thread_step_def split: option.splits list.splits action.splits)
    qed
  qed
  have "threads m' (job_id job) = threads m (job_id job)"
    using s False
    by (auto simp add: thread_step_def split: option.splits thread.splits list.splits action.splits)
  with dn h show ?thesis by (simp add: thread_done_def)
qed

lemma done_kept_by_step:
  assumes i: "manager_inv m" and hp: "heap m r = Some job" and dn: "thread_done m (job_id job)"
    and s: "step op m = Some m'"
  shows "heap m' r = Some job \<and> thread_done m' (job_id job)"
proof (cases op)
  case (StartBuild pid jid E now)
  from inv_heapD [OF i hp] have "r \<noteq> next_ref m" and "job_id job \<in> dom (threads m)"
    by auto
  with s hp dn show ?thesis
    by (auto simp add: StartBuild start_build_def Let_def thread_done_def split: if_splits)
next
  case (ThreadStep jid now)
  with done_kept_by_thread_step [OF i hp dn] s show ?thesis by simp
qed

lemma done_kept_by_exec:
  "manager_inv m \<Longrightarrow> heap m r = Some job \<Longrightarrow> thread_done m (job_id job) \<Longrightarrow>
   exec ops m = Some m' \<Longrightarrow> heap m' r = Some job \<and> thread_done m' (job_id job)"
proof (induction ops arbitrary: m)
  case Nil
  then show ?case by simp
next
  case (Cons op ops)
  from Cons.prems(4) obtain m1 where s: "step op m = Some m1" and e: "exec ops m1 = Some m'"
    by (auto split: option.splits)
  from done_kept_by_step [OF Cons.prems(1) Cons.prems(2) Cons.prems(3) s]
  have h1: "heap m1 r = Some job" and d1: "thread_done m1 (job_id job)" by simp_all
  from Cons.IH [OF inv_step [OF Cons.prems(1) s] h1 d1 e] show ?case .
qed

lemma registered_kept_by_step:
  "step op m = Some m' \<Longrightarrow> jobs m jid = Some r \<Longrightarrow> jobs m' jid = Some r"
proof (cases op)
  case (StartBuild pid jid' E now)
  assume "step op m = Some m'" "jobs m jid = Some r"
  with StartBuild show ?thesis
    by (auto simp add: start_build_def Let_def split: if_splits)
next
  case (ThreadStep jid' now)
  assume "step op m = Some m'" "jobs m jid = Some r"
  with ThreadStep show ?thesis
    by (auto simp add: thread_step_def split: option.splits thread.splits list.splits action.splits)
qed

lemma registered_kept_by_exec:
  "exec ops m = Some m' \<Longrightarrow> jobs m jid = Some r \<Longrightarrow> jobs m' jid = Some r"
proof (induction ops arbitrary: m)
  case Nil
  then show ?case by simp
next
  case (Cons op ops)
  from Cons.prems(1) obtain m1 where s: "step op m = Some m1" and e: "exec ops m1 = Some m'"
    by (auto split: option.splits)
  from Cons.IH [OF e registered_kept_by_step [OF s Cons.prems(2)]] show ?case .
qed

subsection \<open>An example run\<close>

lemma demo_actions:
  "run_job_actions demo_env ''p'' =
     [Write (SetStatus ''running''), Write (SetMessage ''Starting build'')] @
     map Write (update ''collect_project_files'' 0 ''Running collect project files'') @
     map Write (update ''convert_dds_assets'' (1 / 5) ''Running convert dds assets'') @
     map Write (update ''package_audio_tracks'' (2 / 5) ''Running package audio tracks'') @
     map Write (update ''write_descriptor'' (3 / 5) ''Running write descriptor'') @
     map Write (update ''descriptor'' (4 / 5) ''Descriptor generated'') @
     map Write (update ''archive'' (4 / 5) ''Creating archive'') @
     [CreateFile (build_root @ [''p-'' @ dec 1700000000 @ ''.zip''])
        [[''tmp'', ''openck3-demo'', ''mod'', ''descriptor.mod''] \<mapsto> render_descriptor ''p'' empty_metadata]] @
     map Write (update ''archive'' 1 ''Build complete'') @
     map Write (mark_completed (build_root @ [''p-'' @ dec 1700000000 @ ''.zip'']))"
  by (simp add: run_job_actions_def collect_project_files_def convert_dds_assets_def
      package_audio_tracks_def write_descriptor_def total_of_def build_mod_def build_with_def
      steps_def step_callback_def progress_of_def archive_build_def Let_def demo_env_def
      replace_char_def)

lemma demo_prefix_run:
  "\<exists>m job. exec demo_prefix empty_manager = Some m \<and> heap m 0 = Some job \<and>
     jobs m ''j'' = Some 0 \<and> job_id job = ''j'' \<and>
     status job = ''completed'' \<and> progress job = 1 \<and> message job = ''Build complete'' \<and>
     artifact_path job = None \<and>
     threads m ''j'' =
       Some (Running 0
         (map Write [SetProgress 1, SetMessage ''Build completed'',
                     SetArtifact (build_root @ [''p-'' @ dec 1700000000 @ ''.zip'']), SetUpdated]))"
  by (simp add: demo_prefix_def empty_manager_def start_build_def thread_step_def get_job_def
      new_job_def demo_actions update_def mark_completed_def Let_def)

lemma demo_full_run:
  "\<exists>m job. exec (demo_prefix @ demo_rest) empty_manager = Some m \<and> heap m 0 = Some job \<and>
     jobs m ''j'' = Some 0 \<and> job_id job = ''j'' \<and>
     status job = ''completed'' \<and> progress job = 1 \<and> message job = ''Build completed'' \<and>
     artifact_path job = Some (build_root @ [''p-'' @ dec 1700000000 @ ''.zip'']) \<and>
     build_root @ [''p-'' @ dec 1700000000 @ ''.zip''] \<in> dom (disk m) \<and>
     threads m ''j'' = Some (Running 0 []) \<and>
     ''k'' \<notin> dom (jobs m) \<and> ''k'' \<notin> dom (threads m)"
  by (simp add: demo_prefix_def demo_rest_def empty_manager_def start_build_def thread_step_def
      get_job_def new_job_def demo_actions update_def mark_completed_def Let_def)

subsection \<open>Terminal states\<close>

text \<open>
  Claim C2, as stated, fails. \<^verbatim>\<open>_run_job\<close> assigns \<^verbatim>\<open>job.status = "completed"\<close> before
  \<^verbatim>\<open>job.artifact_path\<close>, and the object is the one that \<^verbatim>\<open>get_job\<close> hands out. In the
  example run, right after the assignment of the status the job object reads completed, 1,
  \<^verbatim>\<open>Build complete\<close> and has no artifact path; the four assignments that follow change
  the message and the artifact path of this completed job.
\<close>

theorem completed_without_artifact_counterexample:
  "map_option
     (\<lambda>m. map_option (\<lambda>job. (status job, progress job, message job, artifact_path job)) (heap m 0))
     (exec demo_prefix empty_manager) =
     Some (Some (''completed'', 1, ''Build complete'', None)) \<and>
   map_option
     (\<lambda>m. map_option (\<lambda>job. (status job, progress job, message job, artifact_path job)) (heap m 0))
     (Option.bind (exec demo_prefix empty_manager) (exec demo_rest)) =
     Some (Some (''completed'', 1, ''Build completed'',
                 Some (build_root @ [''p-'' @ dec 1700000000 @ ''.zip''])))"
  by (simp add: demo_prefix_def demo_rest_def empty_manager_def start_build_def thread_step_def
      get_job_def new_job_def demo_actions update_def mark_completed_def Let_def)

text \<open>
  Claim C2, amended. Take any state the manager reaches from the empty one by calls of
  \<^verbatim>\<open>start_build\<close> (with fresh ids) and moves of the job threads, every assignment to a
  field of a job object being a move of its own, and any job object in it.

  \<^item> At every moment its message is not empty, and it has no artifact path unless its status
    is \<^verbatim>\<open>completed\<close>; so a failed job has a non-empty message and no artifact path.

  \<^item> Once its status is \<^verbatim>\<open>completed\<close> or \<^verbatim>\<open>failed\<close>, no further operations change its
    status or its progress. So a job reaches at most one terminal status.

  \<^item> Once its thread has carried out all the assignments of \<^verbatim>\<open>_run_job\<close>, its status is
    \<^verbatim>\<open>completed\<close> or \<^verbatim>\<open>failed\<close>; if it is \<^verbatim>\<open>completed\<close>, the artifact path is set and
    the archive at that path is on disk; and after any further operations the job object is
    the same record, in all its fields, and is still registered under its id.

  Between the assignment of a terminal status and the end of its block, the message, the
  artifact path and the update time of the job still change. All this is about the job
  object at one moment; a reader such as \<^verbatim>\<open>to_dict\<close> reads the fields one after the
  other, without the lock, and may put together values of different moments.
\<close>

theorem terminal_states_settle:
  "exec ops empty_manager = Some m \<and> heap m r = Some job \<longrightarrow>
     message job \<noteq> [] \<and>
     (status job \<noteq> ''completed'' \<longrightarrow> artifact_path job = None) \<and>
     (terminal job \<longrightarrow>
        (\<forall>ops' m'. exec ops' m = Some m' \<longrightarrow>
           (\<exists>job'. heap m' r = Some job' \<and> status job' = status job \<and>
                   progress job' = progress job))) \<and>
     (thread_done m (job_id job) \<longrightarrow>
        terminal job \<and>
        (status job = ''completed'' \<longrightarrow>
           (\<exists>p. artifact_path job = Some p \<and> p \<in> dom (disk m))) \<and>
        (\<forall>ops' m'. exec ops' m = Some m' \<longrightarrow>
           heap m' r = Some job \<and> get_job m' (job_id job) = Some r \<and>
           thread_done m' (job_id job)))"
proof (intro impI)
  assume a: "exec ops empty_manager = Some m \<and> heap m r = Some job"
  then have e: "exec ops empty_manager = Some m" and hp: "heap m r = Some job" by simp_all
  from inv_exec [OF inv_empty e] have i: "manager_inv m" .
  from inv_heapD [OF i hp] have reg: "jobs m (job_id job) = Some r" by simp
  from inv_heap_sound [OF i hp]
  have c1: "message job \<noteq> []" and c2: "status job \<noteq> ''completed'' \<longrightarrow> artifact_path job = None"
    by (simp_all add: sound_job_def)
  have c3: "terminal job \<longrightarrow>
      (\<forall>ops' m'. exec ops' m = Some m' \<longrightarrow>
         (\<exists>job'. heap m' r = Some job' \<and> status job' = status job \<and> progress job' = progress job))"
    using terminal_kept_by_exec [OF i hp] by blast
  have c4: "thread_done m (job_id job) \<longrightarrow>
      terminal job \<and>
      (status job = ''completed'' \<longrightarrow> (\<exists>p. artifact_path job = Some p \<and> p \<in> dom (disk m))) \<and>
      (\<forall>ops' m'. exec ops' m = Some m' \<longrightarrow>
         heap m' r = Some job \<and> get_job m' (job_id job) = Some r \<and> thread_done m' (job_id job))"
  proof
    assume dn: "thread_done m (job_id job)"
    from inv_done [OF i hp dn] have tm: "terminal job" and ok: "job_ok (disk m) job" by simp_all
    from ok have ar: "status job = ''completed'' \<longrightarrow>
        (\<exists>p. artifact_path job = Some p \<and> p \<in> dom (disk m))"
      by (auto simp add: job_ok_def split: option.splits)
    have kp: "heap m' r = Some job \<and> get_job m' (job_id job) = Some r \<and> thread_done m' (job_id job)"
      if e': "exec ops' m = Some m'" for ops' m'
      using done_kept_by_exec [OF i hp dn e'] registered_kept_by_exec [OF e' reg]
      by (simp add: get_job_def)
    from tm ar kp show "terminal job \<and>
      (status job = ''completed'' \<longrightarrow> (\<exists>p. artifact_path job = Some p \<and> p \<in> dom (disk m))) \<and>
      (\<forall>ops' m'. exec ops' m = Some m' \<longrightarrow>
         heap m' r = Some job \<and> get_job m' (job_id job) = Some r \<and> thread_done m' (job_id job))"
      by blast
  qed
  from c1 c2 c3 c4 show "message job \<noteq> [] \<and>
     (status job \<noteq> ''completed'' \<longrightarrow> artifact_path job = None) \<and>
     (terminal job \<longrightarrow>
        (\<forall>ops' m'. exec ops' m = Some m' \<longrightarrow>
           (\<exists>job'. heap m' r = Some job' \<and> status job' = status job \<and>
                   progress job' = progress job))) \<and>
     (thread_done m (job_id job) \<longrightarrow>
        terminal job \<and>
        (status job = ''completed'' \<longrightarrow>
           (\<exists>p. artifact_path job = Some p \<and> p \<in> dom (disk m))) \<and>
        (\<forall>ops' m'. exec ops' m = Some m' \<longrightarrow>
           heap m' r = Some job \<and> get_job m' (job_id job) = Some r \<and>
           thread_done m' (job_id job)))"
    by blast
qed

theorem terminal_states_settle_witness:
  "\<exists>m job. exec (demo_prefix @ demo_rest) empty_manager = Some m \<and> heap m 0 = Some job \<and>
     thread_done m (job_id job) \<and> status job = ''completed'' \<and>
     (\<exists>p. artifact_path job = Some p \<and> p \<in> dom (disk m)) \<and>
     heap (snd (start_build ''p'' ''k'' demo_env 38 m)) 0 = Some job \<and>
     thread_done (snd (start_build ''p'' ''k'' demo_env 38 m)) (job_id job)"
proof -
  from demo_full_run obtain m job where e: "exec (demo_prefix @ demo_rest) empty_manager = Some m"
    and hp: "heap m 0 = Some job" and idj: "job_id job = ''j''" and st: "status job = ''completed''"
    and th: "threads m ''j'' = Some (Running 0 [])"
    and k: "''k'' \<notin> dom (jobs m) \<and> ''k'' \<notin> dom (threads m)"
    by blast
  from th idj have dn: "thread_done m (job_id job)" by (simp add: thread_done_def)
  from k have s: "exec [StartBuild ''p'' ''k'' demo_env 38] m =
      Some (snd (start_build ''p'' ''k'' demo_env 38 m))"
    by simp
  from terminal_states_settle [of "demo_prefix @ demo_rest" m 0 job] e hp st dn s
  have "(\<exists>p. artifact_path job = Some p \<and> p \<in> dom (disk m)) \<and>
      heap (snd (start_build ''p'' ''k'' demo_env 38 m)) 0 = Some job \<and>
      thread_done (snd (start_build ''p'' ''k'' demo_env 38 m)) (job_id job)"
    by blast
  with e hp st dn show ?thesis by blast
qed

subsection \<open>Progress slices\<close>

text \<open>
  Claim C3. For a pipeline of \<open>n\<close> stages the span is \<open>s = 1 / (n + 1)\<close>, so \<open>n + 1\<close>
  spans make 1, and the four stages of \<^verbatim>\<open>build_mod\<close> get \<open>s = 1/5\<close>. What the build
  reports is, for the stages in order, the start of stage \<open>i\<close> at \<open>(i - 1) * s\<close> followed
  by each report \<open>r\<close> of that stage at \<open>(i - 1) * s + r * s\<close>; when no stage failed, then
  \<open>n * s\<close> before archiving; and when the archive was written, 1 after it. Ratios are
  exact rationals here, where the source computes with floats.
\<close>

theorem pipeline_progress_slices:
  "of_nat (length sts + 1) * (1 / of_nat (length sts + 1) :: rat) = 1 \<and>
   build_mod = build_with steps \<and> length steps = 4 \<and>
   (1 / of_nat (length steps + 1) :: rat) = 1 / 5 \<and>
   build_with sts E pid True =
     (let s = 1 / of_nat (length sts + 1)
      in case stages_raw E pid (tmp_dir E @ [''mod'']) sts Map.empty of
           (outs, t, Some e) \<Rightarrow>
             (map progress_of (concat (map (stage_reports s) (enumerate 1 outs))), Inl e)
         | (outs, t, None) \<Rightarrow>
             (case archive_build E pid of
                Inl e \<Rightarrow>
                  (map progress_of (concat (map (stage_reports s) (enumerate 1 outs))) @
                   [Progress ''archive'' (of_nat (length sts) * s) ''Creating archive''],
                   Inl e)
              | Inr archive_path \<Rightarrow>
                  (map progress_of (concat (map (stage_reports s) (enumerate 1 outs))) @
                   [Progress ''archive'' (of_nat (length sts) * s) ''Creating archive'',
                    Archived archive_path t,
                    Progress ''archive'' 1 ''Build complete''],
                   Inr archive_path)))"
proof (intro conjI)
  show "of_nat (length sts + 1) * (1 / of_nat (length sts + 1) :: rat) = 1"
    by simp
  show "build_mod = build_with steps"
    by (simp add: build_mod_def)
  show "length steps = 4"
    by (simp add: steps_def)
  show "(1 / of_nat (length steps + 1) :: rat) = 1 / 5"
    by (simp add: steps_def)
  show "build_with sts E pid True =
     (let s = 1 / of_nat (length sts + 1)
      in case stages_raw E pid (tmp_dir E @ [''mod'']) sts Map.empty of
           (outs, t, Some e) \<Rightarrow>
             (map progress_of (concat (map (stage_reports s) (enumerate 1 outs))), Inl e)
         | (outs, t, None) \<Rightarrow>
             (case archive_build E pid of
                Inl e \<Rightarrow>
                  (map progress_of (concat (map (stage_reports s) (enumerate 1 outs))) @
                   [Progress ''archive'' (of_nat (length sts) * s) ''Creating archive''],
                   Inl e)
              | Inr archive_path \<Rightarrow>
                  (map progress_of (concat (map (stage_reports s) (enumerate 1 outs))) @
                   [Progress ''archive'' (of_nat (length sts) * s) ''Creating archive'',
                    Archived archive_path t,
                    Progress ''archive'' 1 ''Build complete''],
                   Inr archive_path)))"
    by (rule build_with_raw)
qed

subsection \<open>Stages on empty input\<close>

text \<open>
  Claim C4, as stated, fails: on a project with no files and no asset directories the
  collect, texture and audio stages return without error, and none of them calls the
  progress callback, so none reports completion.
\<close>

theorem empty_stage_reports_nothing_counterexample:
  "project_files demo_env = [] \<and> dds_files demo_env = None \<and> audio_files demo_env = None \<and>
   collect_project_files demo_env ''p'' [''work''] True Map.empty = (Map.empty, [], None) \<and>
   convert_dds_assets demo_env ''p'' [''work''] True Map.empty = (Map.empty, [], None) \<and>
   package_audio_tracks demo_env ''p'' [''work''] True Map.empty = (Map.empty, [], None)"
  by (simp add: collect_project_files_def convert_dds_assets_def package_audio_tracks_def
      demo_env_def)

text \<open>
  Claim C4, amended. The collect stage on a project with no files, and the texture and audio
  stages on a project that has no asset directory of their kind, return without error and
  make no call of the progress callback (the total \<^verbatim>\<open>len(files) or 1\<close> of the collect stage
  is 1 and is not used). The end of such a stage is reported by the pipeline only: its own
  call before the next stage carries that value, and for a project with no input the ratios
  it reports are 0, 1/5, 2/5 and 3/5 at the start of the four stages, 4/5 from the
  descriptor stage, 4/5 before archiving and 1 after it.
\<close>

theorem stages_on_empty_input:
  "snd (collect_project_files (E\<lparr>project_files := []\<rparr>) pid destination callback t) = ([], None) \<and>
   snd (convert_dds_assets (E\<lparr>dds_files := None\<rparr>) pid destination callback t) = ([], None) \<and>
   snd (package_audio_tracks (E\<lparr>audio_files := None\<rparr>) pid destination callback t) = ([], None) \<and>
   total_of (project_files (E\<lparr>project_files := []\<rparr>)) = 1 \<and>
   ratios (fst (build_mod (E\<lparr>project_files := [], dds_files := None, audio_files := None,
                             archive_error := None\<rparr>) pid True)) =
     [0, 1 / 5, 2 / 5, 3 / 5, 4 / 5, 4 / 5, 1]"
  by (simp add: collect_project_files_def convert_dds_assets_def package_audio_tracks_def
      write_descriptor_def total_of_def build_mod_def build_with_def steps_def step_callback_def
      progress_of_def archive_build_def Let_def)

subsection \<open>References to job objects\<close>

text \<open>
  Claim C5, as stated, fails: \<^verbatim>\<open>start_build\<close> and \<^verbatim>\<open>get_job\<close> return the reference of
  the job object itself. The record behind the reference that \<^verbatim>\<open>get_job\<close> returned
  right after \<^verbatim>\<open>start_build\<close> reads queued, 0, \<^verbatim>\<open>Queued\<close>; after ten moves of the
  job's thread, the last three of them the assignments of status, progress and message in
  a call of \<^verbatim>\<open>update\<close>, the record behind the same reference reads running, 1/5,
  \<^verbatim>\<open>Running convert dds assets\<close>.
\<close>

theorem get_job_live_reference_counterexample:
  "get_job (snd (start_build ''p'' ''j'' demo_env 0 empty_manager)) ''j'' = Some 0 \<and>
   fst (start_build ''p'' ''j'' demo_env 0 empty_manager) = 0 \<and>
   map_option (\<lambda>job. (status job, progress job, message job))
     (heap (snd (start_build ''p'' ''j'' demo_env 0 empty_manager)) 0) =
     Some (''queued'', 0, ''Queued'') \<and>
   map_option (\<lambda>m. map_option (\<lambda>job. (status job, progress job, message job)) (heap m 0))
     (exec [ThreadStep ''j'' 1, ThreadStep ''j'' 2, ThreadStep ''j'' 3, ThreadStep ''j'' 4,
            ThreadStep ''j'' 5, ThreadStep ''j'' 6, ThreadStep ''j'' 7, ThreadStep ''j'' 8,
            ThreadStep ''j'' 9, ThreadStep ''j'' 10]
        (snd (start_build ''p'' ''j'' demo_env 0 empty_manager))) =
     Some (Some (''running'', 1 / 5, ''Running convert dds assets''))"
  by (simp add: empty_manager_def start_build_def thread_step_def get_job_def
      new_job_def demo_actions update_def Let_def)

text \<open>
  Claim C5, amended. \<^verbatim>\<open>get_job\<close> returns the reference that the registry holds for the
  id, and \<^verbatim>\<open>start_build\<close> returns the reference of the object it has just created and
  registered. A write of the job's thread goes to the object behind that reference, so the
  record read through a reference returned earlier shows the write, and \<^verbatim>\<open>get_job\<close>
  keeps returning the same reference.
\<close>

theorem get_job_shares_reference:
  "get_job m jid = jobs m jid \<and>
   fst (start_build pid jid E now m) = next_ref m \<and>
   get_job (snd (start_build pid jid E now m)) jid = Some (fst (start_build pid jid E now m)) \<and>
   heap (snd (start_build pid jid E now m)) (fst (start_build pid jid E now m)) =
     Some (new_job jid pid now) \<and>
   (get_job m jid = Some r \<and> threads m jid = Some (Running r (Write w # acts)) \<and>
    heap m r = Some job \<longrightarrow>
      (\<exists>m'. thread_step jid t m = Some m' \<and> get_job m' jid = Some r \<and>
            heap m' r = Some (apply_write t w job)))"
  by (simp add: get_job_def start_build_def Let_def thread_step_def)

theorem get_job_shares_reference_witness:
  "\<exists>m. exec [StartBuild ''p'' ''j'' demo_env 0, ThreadStep ''j'' 1] empty_manager = Some m \<and>
     get_job m ''j'' = Some 0 \<and> heap m 0 = Some (new_job ''j'' ''p'' 0) \<and>
     (\<exists>m'. thread_step ''j'' 2 m = Some m' \<and> get_job m' ''j'' = Some 0 \<and>
           heap m' 0 = Some (apply_write 2 (SetStatus ''running'') (new_job ''j'' ''p'' 0)))"
proof -
  have "\<exists>m. exec [StartBuild ''p'' ''j'' demo_env 0, ThreadStep ''j'' 1] empty_manager = Some m \<and>
     get_job m ''j'' = Some 0 \<and> heap m 0 = Some (new_job ''j'' ''p'' 0) \<and>
     threads m ''j'' = Some (Running 0 (run_job_actions demo_env ''p''))"
    by (simp add: empty_manager_def start_build_def thread_step_def get_job_def new_job_def Let_def)
  then obtain m where e: "exec [StartBuild ''p'' ''j'' demo_env 0, ThreadStep ''j'' 1] empty_manager = Some m"
    and g: "get_job m ''j'' = Some 0" and h: "heap m 0 = Some (new_job ''j'' ''p'' 0)"
    and t: "threads m ''j'' = Some (Running 0 (run_job_actions demo_env ''p''))"
    by blast
  from t have t': "threads m ''j'' =
      Some (Running 0 (Write (SetStatus ''running'') # tl (run_job_actions demo_env ''p'')))"
    by (simp add: demo_actions)
  from get_job_shares_reference [of m "''j''" "''p''" demo_env 0 0 "SetStatus ''running''"
      "tl (run_job_actions demo_env ''p'')" "new_job ''j'' ''p'' 0" 2] g t' h
  have "\<exists>m'. thread_step ''j'' 2 m = Some m' \<and> get_job m' ''j'' = Some 0 \<and>
      heap m' 0 = Some (apply_write 2 (SetStatus ''running'') (new_job ''j'' ''p'' 0))"
    by blast
  with e g h show ?thesis by blast
qed

subsection \<open>Textures without a converter\<close>

text \<open>
  Claim C6, as stated, fails: the texture stage lowercases the suffix before comparing it, so
  a file \<^verbatim>\<open>coat.DDS\<close>, whose suffix \<^verbatim>\<open>.DDS\<close> is not \<^verbatim>\<open>.dds\<close>, is copied and the stage
  succeeds with no converter.
\<close>

theorem uppercase_dds_suffix_counterexample:
  "path_suffix ''coat.DDS'' \<noteq> ''.dds'' \<and> converter demo_env = None \<and>
   convert_dds_assets (demo_env\<lparr>dds_files := Some [(''coat.DDS'', ''pixels'')]\<rparr>) ''p'' [''work''] True
       Map.empty =
     ([[''work'', ''gfx'', ''coat.dds''] \<mapsto> ''pixels''], [(''dds'', 1, ''Processed coat.DDS'')], None)"
proof -
  have c: "converter (demo_env\<lparr>dds_files := Some [(''coat.DDS'', ''pixels'')]\<rparr>) = None"
    by (simp add: demo_env_def)
  show ?thesis
    using convert_dds_assets_no_converter [OF c, of "[(''coat.DDS'', ''pixels'')]" "''p''" "[''work'']" True Map.empty]
    by (simp add: demo_suffixes is_dds_def copy_dds_def loop_events_def total_of_def demo_env_def)
qed


text \<open>
  Claim C6, amended. A source whose lowercased suffix is \<^verbatim>\<open>.dds\<close> is copied verbatim to the
  destination, converter or not. With no converter, a source whose lowercased suffix is not
  \<^verbatim>\<open>.dds\<close> raises \<^verbatim>\<open>BuildError("No DDS converter (ImageMagick or texconv) available")\<close>,
  and the stage copies the files up to the first such source to \<^verbatim>\<open>gfx/<stem>.dds\<close>,
  reports each of them, and ends with that error if there is such a source and with no
  error otherwise.
\<close>

theorem convert_without_converter:
  "(str_lower (path_suffix (path_name source)) = ''.dds'' \<longrightarrow>
      convert_to_dds E source data target t = Inr (t(target \<mapsto> data))) \<and>
   (converter E = None \<and> str_lower (path_suffix (path_name source)) \<noteq> ''.dds'' \<longrightarrow>
      convert_to_dds E source data target t =
        Inl (BuildError ''No DDS converter (ImageMagick or texconv) available'')) \<and>
   (converter E = None \<and> dds_files E = Some files \<longrightarrow>
      convert_dds_assets E pid destination callback t =
        (foldl (\<lambda>t f. copy_dds (destination @ [''gfx'']) f t) t (takeWhile is_dds files),
         (if callback
          then loop_events ''dds'' (\<lambda>(name, data). ''Processed '' @ name) (total_of files) 1
                 (takeWhile is_dds files)
          else []),
         (case dropWhile is_dds files of
            [] \<Rightarrow> None
          | f # rest \<Rightarrow> Some (BuildError ''No DDS converter (ImageMagick or texconv) available''))))"
proof (intro conjI impI)
  assume "str_lower (path_suffix (path_name source)) = ''.dds''"
  then show "convert_to_dds E source data target t = Inr (t(target \<mapsto> data))"
    by (rule convert_to_dds_copy)
next
  assume "converter E = None \<and> str_lower (path_suffix (path_name source)) \<noteq> ''.dds''"
  then show "convert_to_dds E source data target t =
      Inl (BuildError ''No DDS converter (ImageMagick or texconv) available'')"
    using convert_to_dds_no_converter [of E source data target t] by (simp add: no_converter_def)
next
  assume a: "converter E = None \<and> dds_files E = Some files"
  then have c: "converter E = None" and d: "dds_files E = Some files" by simp_all
  show "convert_dds_assets E pid destination callback t =
        (foldl (\<lambda>t f. copy_dds (destination @ [''gfx'']) f t) t (takeWhile is_dds files),
         (if callback
          then loop_events ''dds'' (\<lambda>(name, data). ''Processed '' @ name) (total_of files) 1
                 (takeWhile is_dds files)
          else []),
         (case dropWhile is_dds files of
            [] \<Rightarrow> None
          | f # rest \<Rightarrow> Some (BuildError ''No DDS converter (ImageMagick or texconv) available'')))"
    unfolding convert_dds_assets_no_converter [OF c d] no_converter_def ..
qed


theorem convert_without_converter_witness:
  "converter demo_env = None \<and>
   convert_dds_assets
       (demo_env\<lparr>dds_files := Some [(''arms.dds'', ''A''), (''coat.png'', ''P''), (''coat.DDS'', ''C'')]\<rparr>)
       ''p'' [''work''] True Map.empty =
     ([[''work'', ''gfx'', ''arms.dds''] \<mapsto> ''A''], [(''dds'', 1 / 3, ''Processed arms.dds'')],
      Some (BuildError ''No DDS converter (ImageMagick or texconv) available'')) \<and>
   convert_to_dds demo_env (DDS_ROOT @ [''p'', ''coat.DDS'']) ''C'' [''work'', ''gfx'', ''coat.dds''] Map.empty =
     Inr [[''work'', ''gfx'', ''coat.dds''] \<mapsto> ''C'']"
proof -
  let ?E = "demo_env\<lparr>dds_files := Some [(''arms.dds'', ''A''), (''coat.png'', ''P''), (''coat.DDS'', ''C'')]\<rparr>"
  have c: "converter ?E = None" "converter demo_env = None"
    by (simp_all add: demo_env_def)
  have n: "path_name (DDS_ROOT @ [''p'', ''coat.DDS'']) = ''coat.DDS''"
    by (simp add: path_name_def)
  show ?thesis
    using convert_without_converter [of "DDS_ROOT @ [''p'', ''coat.DDS'']" demo_env "''C''"
        "[''work'', ''gfx'', ''coat.dds'']" Map.empty]
      convert_without_converter [of "[''x'']" ?E "''x''" "[]" Map.empty
        "[(''arms.dds'', ''A''), (''coat.png'', ''P''), (''coat.DDS'', ''C'')]" "''p''" "[''work'']" True]
    by (simp add: c n demo_suffixes is_dds_def copy_dds_def loop_events_def total_of_def)
qed

subsection \<open>The audio allow-list\<close>

text \<open>
  Claim C7. A file whose lowercased suffix is neither \<^verbatim>\<open>.ogg\<close> nor \<^verbatim>\<open>.wav\<close> makes the
  loop body raise \<^verbatim>\<open>BuildError("Unsupported audio format: <suffix>")\<close> before anything is
  written for it; a file with one of the two suffixes is copied to the audio folder. The
  stage packages the files up to the first rejected one, so its tree holds nothing of the
  rejected file or of the files after it, and it ends with that error; when every file is
  accepted it ends without error.
\<close>

theorem audio_stage_rejects_unlisted_extensions:
  "(\<not> is_audio (name, data) \<longrightarrow>
      package_audio_file E files audio_root (name, data) t =
        Inl (BuildError (''Unsupported audio format: '' @ path_suffix name))) \<and>
   (is_audio (name, data) \<longrightarrow>
      (\<exists>t'. package_audio_file E files audio_root (name, data) t = Inr t' \<and>
            t' (audio_root @ [name]) = Some data)) \<and>
   (audio_files E = Some files \<longrightarrow>
      package_audio_tracks E pid destination callback t =
        (foldl (\<lambda>t f. packaged E files (destination @ [''sound'']) f t) t (takeWhile is_audio files),
         (if callback
          then loop_events ''audio'' (\<lambda>(name, data). ''Packaged '' @ name) (total_of files) 1
                 (takeWhile is_audio files)
          else []),
         (case dropWhile is_audio files of
            [] \<Rightarrow> None
          | (name, data) # rest \<Rightarrow> Some (BuildError (''Unsupported audio format: '' @ path_suffix name)))))"
proof (intro conjI impI)
  assume "\<not> is_audio (name, data)"
  then show "package_audio_file E files audio_root (name, data) t =
      Inl (BuildError (''Unsupported audio format: '' @ path_suffix name))"
    by (simp add: package_audio_file_char unsupported_audio_def)
next
  assume "is_audio (name, data)"
  then show "\<exists>t'. package_audio_file E files audio_root (name, data) t = Inr t' \<and>
      t' (audio_root @ [name]) = Some data"
    by (simp add: package_audio_file_char packaged_def)
next
  assume a: "audio_files E = Some files"
  have e: "(case xs of [] \<Rightarrow> None | f # rest \<Rightarrow> Some (unsupported_audio f)) =
      (case xs of [] \<Rightarrow> None
       | (name, data) # rest \<Rightarrow> Some (BuildError (''Unsupported audio format: '' @ path_suffix name)))"
    for xs :: "(string \<times> string) list"
    by (cases xs) (auto simp add: unsupported_audio_def)
  show "package_audio_tracks E pid destination callback t =
        (foldl (\<lambda>t f. packaged E files (destination @ [''sound'']) f t) t (takeWhile is_audio files),
         (if callback
          then loop_events ''audio'' (\<lambda>(name, data). ''Packaged '' @ name) (total_of files) 1
                 (takeWhile is_audio files)
          else []),
         (case dropWhile is_audio files of
            [] \<Rightarrow> None
          | (name, data) # rest \<Rightarrow> Some (BuildError (''Unsupported audio format: '' @ path_suffix name))))"
    unfolding package_audio_tracks_char [OF a] e ..
qed

theorem audio_stage_rejects_unlisted_extensions_witness:
  "package_audio_tracks
       (demo_env\<lparr>audio_files := Some [(''theme.ogg'', ''T''), (''battle.mp3'', ''B''), (''march.wav'', ''M'')]\<rparr>)
       ''p'' [''work''] True Map.empty =
     ([[''work'', ''sound'', ''theme.ogg''] \<mapsto> ''T''], [(''audio'', 1 / 3, ''Packaged theme.ogg'')],
      Some (BuildError ''Unsupported audio format: .mp3'')) \<and>
   package_audio_tracks
       (demo_env\<lparr>audio_files := Some [(''theme.ogg'', ''T''), (''march.wav'', ''M'')]\<rparr>)
       ''p'' [''work''] True Map.empty =
     ([[''work'', ''sound'', ''theme.ogg''] \<mapsto> ''T'', [''work'', ''sound'', ''march.wav''] \<mapsto> ''M''],
      [(''audio'', 1 / 2, ''Packaged theme.ogg''), (''audio'', 1, ''Packaged march.wav'')], None)"
proof -
  let ?f = "[(''theme.ogg'', ''T''), (''battle.mp3'', ''B''), (''march.wav'', ''M'')]"
  let ?g = "[(''theme.ogg'', ''T''), (''march.wav'', ''M'')]"
  show ?thesis
    using audio_stage_rejects_unlisted_extensions [of "''x''" "''x''" "demo_env\<lparr>audio_files := Some ?f\<rparr>" ?f
        "[]" Map.empty "''p''" "[''work'']" True]
      audio_stage_rejects_unlisted_extensions [of "''x''" "''x''" "demo_env\<lparr>audio_files := Some ?g\<rparr>" ?g
        "[]" Map.empty "''p''" "[''work'']" True]
    by (simp add: demo_suffixes is_audio_def packaged_def loop_events_def total_of_def
        load_asset_metadata_lookup)
qed

subsection \<open>The rendered descriptor\<close>

text \<open>
  Claim C8. For the project \<^verbatim>\<open>abc\<close> and an empty manifest the descriptor has the lines
  \<^verbatim>\<open>version="1.0"\<close>, \<^verbatim>\<open>name="OpenCK3 abc"\<close> and \<^verbatim>\<open>supported_version="1.11.*"\<close>, in
  this order, and no line that starts with \<^verbatim>\<open>tags\<close>; with the tags \<^verbatim>\<open>flavor\<close> and
  \<^verbatim>\<open>ui\<close> the descriptor of any project and manifest gains the last line
  \<^verbatim>\<open>tags={ flavor,ui }\<close>; and \<^verbatim>\<open>_write_descriptor\<close>, when the project has no
  \<^verbatim>\<open>project.json\<close>, writes the default descriptor to \<^verbatim>\<open>descriptor.mod\<close>.
\<close>

theorem render_descriptor_defaults_and_tags:
  "descriptor_lines ''abc'' empty_metadata =
     [''version='' @ [dq] @ ''1.0'' @ [dq],
      ''name='' @ [dq] @ ''OpenCK3 abc'' @ [dq],
      ''supported_version='' @ [dq] @ ''1.11.*'' @ [dq]] \<and>
   render_descriptor ''abc'' empty_metadata =
     ''version='' @ [dq] @ ''1.0'' @ [dq] @ [nl] @
     ''name='' @ [dq] @ ''OpenCK3 abc'' @ [dq] @ [nl] @
     ''supported_version='' @ [dq] @ ''1.11.*'' @ [dq] @ [nl] \<and>
   filter (\<lambda>l. take 4 l = ''tags'') (descriptor_lines ''abc'' empty_metadata) = [] \<and>
   descriptor_lines pid (md\<lparr>md_tags := Some [''flavor'', ''ui'']\<rparr>) =
     descriptor_lines pid (md\<lparr>md_tags := None\<rparr>) @ [''tags={ flavor,ui }''] \<and>
   render_descriptor pid (md\<lparr>md_tags := Some [''flavor'', ''ui'']\<rparr>) =
     render_descriptor pid (md\<lparr>md_tags := None\<rparr>) @ ''tags={ flavor,ui }'' @ [nl] \<and>
   write_descriptor (E\<lparr>project_files := []\<rparr>) ''abc'' destination callback t =
     (t(destination @ [''descriptor.mod''] \<mapsto> render_descriptor ''abc'' empty_metadata),
      (if callback then [(''descriptor'', 1, ''Descriptor generated'')] else []), None)"
  by (simp add: descriptor_lines_def render_descriptor_def empty_metadata_def get_default_def
      write_descriptor_def dq_def)

subsection \<open>Sidecars of audio files\<close>

text \<open>
  Claim C9, as stated, fails: the sidecar is written only when the metadata loaded from it
  is not empty. Beside \<^verbatim>\<open>theme.ogg\<close> lies the sidecar \<^verbatim>\<open>theme.ogg.json\<close> holding the empty
  object; the audio file is packaged and no sidecar is written.
\<close>

theorem empty_sidecar_counterexample:
  "map_of [(''theme.ogg'', ''T''), (''theme.ogg.json'', ''{}'')] ''theme.ogg.json'' = Some ''{}'' \<and>
   package_audio_file
       (demo_env\<lparr>audio_files := Some [(''theme.ogg'', ''T''), (''theme.ogg.json'', ''{}'')]\<rparr>)
       [(''theme.ogg'', ''T''), (''theme.ogg.json'', ''{}'')] [''work'', ''sound'']
       (''theme.ogg'', ''T'') Map.empty =
     Inr [[''work'', ''sound'', ''theme.ogg''] \<mapsto> ''T''] \<and>
   [[''work'', ''sound'', ''theme.ogg''] \<mapsto> ''T''] [''work'', ''sound'', ''theme.ogg.json''] = None"
  by (simp add: package_audio_file_char is_audio_def packaged_def demo_suffixes
      load_asset_metadata_lookup demo_env_def)

text \<open>
  Claim C9, amended. When the loop body packages an accepted audio file and the sidecar
  beside the source holds a non-empty object, it writes that object, serialised again by
  \<^verbatim>\<open>save_metadata\<close>, to \<^verbatim>\<open><name>.json\<close> in the audio folder, next to the copy of the
  audio file; when there is no sidecar, or the sidecar holds the empty object, it writes
  the copy of the audio file only.
\<close>

theorem sidecar_written_when_not_empty:
  "(is_audio (name, data) \<and> map_of files (name @ ''.json'') = Some text \<and> parse_sidecar E text \<noteq> [] \<longrightarrow>
      package_audio_file E files audio_root (name, data) t =
        Inr ((t(audio_root @ [name] \<mapsto> data))
               (audio_root @ [name @ ''.json''] \<mapsto> dump_sidecar E (parse_sidecar E text)))) \<and>
   (is_audio (name, data) \<and>
    (map_of files (name @ ''.json'') = None \<or>
     map_of files (name @ ''.json'') = Some text \<and> parse_sidecar E text = []) \<longrightarrow>
      package_audio_file E files audio_root (name, data) t = Inr (t(audio_root @ [name] \<mapsto> data)))"
  by (auto simp add: package_audio_file_char packaged_def load_asset_metadata_lookup)

theorem sidecar_written_when_not_empty_witness:
  "package_audio_file demo_env [(''theme.ogg'', ''T''), (''theme.ogg.json'', ''{t}'')]
       [''work'', ''sound''] (''theme.ogg'', ''T'') Map.empty =
     Inr [[''work'', ''sound'', ''theme.ogg''] \<mapsto> ''T'',
          [''work'', ''sound'', ''theme.ogg.json''] \<mapsto> ''title:{t};''] \<and>
   package_audio_file demo_env [(''theme.ogg'', ''T'')] [''work'', ''sound''] (''theme.ogg'', ''T'') Map.empty =
     Inr [[''work'', ''sound'', ''theme.ogg''] \<mapsto> ''T'']"
  using sidecar_written_when_not_empty [of "''theme.ogg''" "''T''"
      "[(''theme.ogg'', ''T''), (''theme.ogg.json'', ''{t}'')]" "''{t}''" demo_env
      "[''work'', ''sound'']" Map.empty]
    sidecar_written_when_not_empty [of "''theme.ogg''" "''T''" "[(''theme.ogg'', ''T'')]" "''x''" demo_env
      "[''work'', ''sound'']" Map.empty]
  by (simp add: is_audio_def demo_suffixes demo_env_def)

text \<open>
  The sidecar lies in the directory the stage iterates over. When the listing reaches it,
  the stage takes it for an audio file and rejects it.
\<close>

lemma listed_sidecar_is_rejected:
  "package_audio_tracks
       (demo_env\<lparr>audio_files := Some [(''theme.ogg'', ''T''), (''theme.ogg.json'', ''{t}'')]\<rparr>)
       ''p'' [''work''] True Map.empty =
     ([[''work'', ''sound'', ''theme.ogg''] \<mapsto> ''T'',
       [''work'', ''sound'', ''theme.ogg.json''] \<mapsto> ''title:{t};''],
      [(''audio'', 1 / 2, ''Packaged theme.ogg'')],
      Some (BuildError ''Unsupported audio format: .json''))"
proof -
  let ?f = "[(''theme.ogg'', ''T''), (''theme.ogg.json'', ''{t}'')]"
  have a: "audio_files (demo_env\<lparr>audio_files := Some ?f\<rparr>) = Some ?f" by simp
  show ?thesis
    unfolding package_audio_tracks_char [OF a]
    by (simp add: demo_suffixes is_audio_def packaged_def loop_events_def total_of_def
        load_asset_metadata_lookup unsupported_audio_def demo_env_def)
qed

subsection \<open>Audio validation ignores letter case\<close>

text \<open>
  Claim C10. \<^verbatim>\<open>_validate_audio\<close> compares the lowercased suffix: it returns normally
  exactly when that is \<^verbatim>\<open>.ogg\<close> or \<^verbatim>\<open>.wav\<close>. So a name with a non-empty stem and an
  extension that is \<^verbatim>\<open>.ogg\<close> or \<^verbatim>\<open>.wav\<close> in any letter case is accepted, and one whose
  extension is \<^verbatim>\<open>.mp3\<close> in any letter case is rejected, the message quoting the
  extension as written.
\<close>

theorem validate_audio_case_insensitive:
  "(validate_audio file_name = Inr ()) = (str_lower (path_suffix file_name) \<in> {''.ogg'', ''.wav''}) \<and>
   (stem \<noteq> [] \<and> str_lower ext \<in> {''.ogg'', ''.wav''} \<longrightarrow> validate_audio (stem @ ext) = Inr ()) \<and>
   (stem \<noteq> [] \<and> str_lower ext = ''.mp3'' \<longrightarrow>
      validate_audio (stem @ ext) = Inl (BuildError (''Unsupported audio format: '' @ ext)))"
proof (intro conjI impI)
  show "(validate_audio file_name = Inr ()) = (str_lower (path_suffix file_name) \<in> {''.ogg'', ''.wav''})"
    by (simp add: validate_audio_def)
next
  assume a: "stem \<noteq> [] \<and> str_lower ext \<in> {''.ogg'', ''.wav''}"
  then have "path_suffix (stem @ ext) = ext" by (auto intro!: suffix_of_ext)
  with a show "validate_audio (stem @ ext) = Inr ()" by (simp add: validate_audio_def)
next
  assume a: "stem \<noteq> [] \<and> str_lower ext = ''.mp3''"
  then have "path_suffix (stem @ ext) = ext" by (auto intro!: suffix_of_ext)
  with a show "validate_audio (stem @ ext) = Inl (BuildError (''Unsupported audio format: '' @ ext))"
    by (simp add: validate_audio_def)
qed


theorem validate_audio_case_insensitive_witness:
  "validate_audio ''theme.OGG'' = Inr () \<and> validate_audio ''theme.Wav'' = Inr () \<and>
   validate_audio ''theme.Mp3'' = Inl (BuildError ''Unsupported audio format: .Mp3'')"
proof -
  have l: "str_lower ''.OGG'' = ''.ogg''" "str_lower ''.Wav'' = ''.wav''" "str_lower ''.Mp3'' = ''.mp3''"
    by code_simp+
  show ?thesis
    using validate_audio_case_insensitive [of "''x''" "''theme''" "''.OGG''"]
      validate_audio_case_insensitive [of "''x''" "''theme''" "''.Wav''"]
      validate_audio_case_insensitive [of "''x''" "''theme''" "''.Mp3''"]
    by (simp add: l)
qed

end
